theory Spec2Isabelle
  imports Complex_Main
begin

section \<open>The unlock page of src/app/page.tsx\<close>

text \<open>
  The page is one React component, \<open>HomePage\<close>, with the hook \<open>useUnlockSequence\<close>.
  Its logic is embedded as functions on a record \<open>page\<close> that holds the six
  \<open>useState\<close> cells and, beside them, what the JavaScript runtime holds for the
  component: the dependencies of the last commit, the cleanup function registered by the
  sequence effect, the closures of the effect's invocations (one \<open>sequence_run\<close> each,
  with its variables \<open>cancelled\<close>, \<open>i\<close> and \<open>timeouts\<close>), the pending timers and a
  simulated clock in milliseconds.

  What is taken from React and the event loop, and not from the file itself:
  \<^item> the state updates of one handler, one effect flush or one timer continuation are
    applied together, and the component renders once after them;
  \<^item> after a render, the effects whose dependencies differ from those of the previous
    render run in the order of their declaration, all cleanups before all bodies; an
    effect reads \<open>phase\<close> and \<open>stepIndex\<close> of the render it belongs to;
  \<^item> a timer set for \<open>d\<close> milliseconds at time \<open>c\<close> fires when the clock reaches
    \<open>c + d\<close>, and the continuation of the \<open>await\<close> runs before any other event;
  \<^item> no timer fires between a handler and the effects of the renders it causes.
  JavaScript numbers are modelled as \<open>int\<close> (all values here are small integers) and
  the quotient inside \<open>Math.round\<close> as an exact rational.
\<close>

subsection \<open>Types and constants\<close>

datatype UnlockPhase = idle | running | complete

datatype PreviewMode = light | dark

text \<open>\<open>UnlockStep\<close>, without its \<open>description\<close> (display text only).\<close>

record UnlockStep =
  step_id :: string
  title :: string
  duration :: nat
  highlight :: string

definition STEP_SEQUENCE :: "UnlockStep list" where
  "STEP_SEQUENCE =
    [\<lparr>step_id = ''scan'', title = ''Calibrating Neural Preferences'',
      duration = 1200, highlight = ''Signal lock acquired''\<rparr>,
     \<lparr>step_id = ''contrast'', title = ''Amplifying Contrast Matrix'',
      duration = 1500, highlight = ''Contrast tuned to 97%''\<rparr>,
     \<lparr>step_id = ''particles'', title = ''Applying Quantum Glow Suppressor'',
      duration = 1400, highlight = ''Glare reduced by 84%''\<rparr>,
     \<lparr>step_id = ''handoff'', title = ''Handing Off To Aesthetic Co-processor'',
      duration = 1100, highlight = ''Palette sync complete''\<rparr>,
     \<lparr>step_id = ''stabilize'', title = ''Stabilising Experience Layer'',
      duration = 1300, highlight = ''Experience sealed''\<rparr>]"

text \<open>The three narration lines (typographic quotes and dashes written in ASCII).\<close>

definition DEMO_SCRIPT :: "string list" where
  "DEMO_SCRIPT =
    [''Invite everyone to watch the calibration lasers hone in on their favourite palettes.'',
     ''Point out how the preview panel flips into noir mode at the finale.'',
     ''Remind the audience that nothing here touches production - it is pure theatre.'']"

text \<open>\<open>Math.round\<close>: the nearest integer, halves upwards.\<close>

definition Math_round :: "rat \<Rightarrow> int" where
  "Math_round x = \<lfloor>x + 1 / 2\<rfloor>"

text \<open>Line 98: \<open>Math.round(((i + 1) / (STEP_SEQUENCE.length + 1)) * 90)\<close>.\<close>

definition step_progress :: "nat \<Rightarrow> int" where
  "step_progress k =
     Math_round ((of_nat (k + 1) / of_nat (length STEP_SEQUENCE + 1)) * 90)"

text \<open>The remainder operator \<open>%\<close> of JavaScript: the sign follows the dividend.\<close>

definition js_rem :: "int \<Rightarrow> int \<Rightarrow> int" where
  "js_rem a b = sgn a * (\<bar>a\<bar> mod \<bar>b\<bar>)"

subsection \<open>The state of the component\<close>

text \<open>
  Every call of a state setter made by the sequencer is recorded in \<open>trace\<close> together
  with the run that made it; the trace is never read by the program.
\<close>

datatype update = SetStepIndex int | SetProgress int | OnComplete

record pending_timer =
  handle :: nat
  due :: nat
  resolves :: nat

record sequence_run =
  cancelled :: bool
  loop_i :: nat
  timeouts :: "nat list"

record page =
  phase :: UnlockPhase
  runToken :: int
  previewMode :: PreviewMode
  scriptIndex :: int
  stepIndex :: int
  progress :: int
  deps :: "(UnlockPhase \<times> int \<times> int) option"
  cleanup :: "nat option"
  runs :: "sequence_run list"
  timers :: "pending_timer list"
  clock :: nat
  next_handle :: nat
  trace :: "(nat \<times> update) list"

definition initial :: page where
  "initial =
    \<lparr>phase = idle, runToken = 0, previewMode = light, scriptIndex = 0,
     stepIndex = - 1, progress = 0, deps = None, cleanup = None, runs = [],
     timers = [], clock = 0, next_handle = 0, trace = []\<rparr>"

subsection \<open>The hook \<open>useUnlockSequence\<close>\<close>

definition resetSequence :: "page \<Rightarrow> page" where
  "resetSequence s = s\<lparr>stepIndex := - 1, progress := 0\<rparr>"

definition handleSequenceComplete :: "page \<Rightarrow> page" where
  "handleSequenceComplete s = s\<lparr>phase := complete\<rparr>"

text \<open>
  Lines 100 to 103: \<open>setTimeout(resolve, d)\<close> inside the promise awaited by run \<open>r\<close>,
  and the push of its handle on the run's \<open>timeouts\<close>.
\<close>

definition setTimeout_resolve :: "nat \<Rightarrow> nat \<Rightarrow> page \<Rightarrow> page" where
  "setTimeout_resolve r d s =
     s\<lparr>timers := timers s @ [\<lparr>handle = next_handle s, due = clock s + d, resolves = r\<rparr>],
       runs := (runs s)[r := (runs s ! r)
                 \<lparr>timeouts := timeouts (runs s ! r) @ [next_handle s]\<rparr>],
       next_handle := next_handle s + 1\<rparr>"

text \<open>
  \<open>executeSequence\<close> of run \<open>r\<close>, from the loop test \<open>i < STEP_SEQUENCE.length\<close> up to
  the next \<open>await\<close> or to its return (lines 92 to 109).
\<close>

definition executeSequence_from :: "nat \<Rightarrow> page \<Rightarrow> page" where
  "executeSequence_from r s =
     (if r < length (runs s) then
        (let k = loop_i (runs s ! r) in
         if k < length STEP_SEQUENCE then
           (if cancelled (runs s ! r) then s
            else setTimeout_resolve r (duration (STEP_SEQUENCE ! k))
                   (s\<lparr>stepIndex := int k, progress := step_progress k,
                      trace := trace s @ [(r, SetStepIndex (int k)),
                                          (r, SetProgress (step_progress k))]\<rparr>))
         else if \<not> cancelled (runs s ! r) then
           handleSequenceComplete
             (s\<lparr>progress := 100,
                trace := trace s @ [(r, SetProgress 100), (r, OnComplete)]\<rparr>)
         else s)
      else s)"

text \<open>The continuation of the \<open>await\<close>: \<open>i += 1\<close>, then the loop test.\<close>

definition resume :: "nat \<Rightarrow> page \<Rightarrow> page" where
  "resume r s =
     (if r < length (runs s) then
        executeSequence_from r
          (s\<lparr>runs := (runs s)[r := (runs s ! r)\<lparr>loop_i := loop_i (runs s ! r) + 1\<rparr>]\<rparr>)
      else s)"

text \<open>The function returned by the effect (lines 114 to 117), for run \<open>r\<close>.\<close>

definition sequence_cleanup :: "nat \<Rightarrow> page \<Rightarrow> page" where
  "sequence_cleanup r s =
     (if r < length (runs s) then
        s\<lparr>runs := (runs s)[r := (runs s ! r)\<lparr>cancelled := True\<rparr>],
          timers := filter (\<lambda>t. handle t \<notin> set (timeouts (runs s ! r))) (timers s)\<rparr>
      else s)"

text \<open>
  The effect of lines 83 to 118, for a render with phase \<open>ph\<close>: it returns at once
  unless the phase is \<open>running\<close>, and otherwise creates the closure of a new run,
  calls \<open>executeSequence\<close> and registers the cleanup.
\<close>

definition sequence_effect :: "UnlockPhase \<Rightarrow> page \<Rightarrow> page" where
  "sequence_effect ph s =
     (if ph \<noteq> running then s\<lparr>cleanup := None\<rparr>
      else executeSequence_from (length (runs s))
             (s\<lparr>runs := runs s @ [\<lparr>cancelled = False, loop_i = 0, timeouts = []\<rparr>],
                cleanup := Some (length (runs s))\<rparr>))"

subsection \<open>The component \<open>HomePage\<close>\<close>

text \<open>The effect of lines 144 to 149.\<close>

definition complete_effect :: "UnlockPhase \<Rightarrow> page \<Rightarrow> page" where
  "complete_effect ph s =
     (if ph = complete then s\<lparr>previewMode := dark, scriptIndex := 2\<rparr> else s)"

text \<open>The effect of lines 151 to 155, for a render with phase \<open>ph\<close> and step index \<open>si\<close>.\<close>

definition narration_effect :: "UnlockPhase \<Rightarrow> int \<Rightarrow> page \<Rightarrow> page" where
  "narration_effect ph si s =
     (if ph = running \<and> si \<ge> 0 \<and> si < int (length DEMO_SCRIPT)
      then s\<lparr>scriptIndex := si\<rparr> else s)"

definition startUnlock :: "page \<Rightarrow> page" where
  "startUnlock s =
     (resetSequence s)\<lparr>phase := running, previewMode := light, scriptIndex := 0,
                       runToken := runToken s + 1\<rparr>"

definition resetUnlock :: "page \<Rightarrow> page" where
  "resetUnlock s =
     (resetSequence s)\<lparr>phase := idle, previewMode := light, scriptIndex := 0\<rparr>"

definition togglePreview :: "page \<Rightarrow> page" where
  "togglePreview s =
     s\<lparr>previewMode := (if previewMode s = light then dark else light)\<rparr>"

text \<open>The handlers of the two narration buttons (lines 312 to 321).\<close>

definition previousBeat :: "page \<Rightarrow> page" where
  "previousBeat s =
     s\<lparr>scriptIndex := js_rem (scriptIndex s - 1 + int (length DEMO_SCRIPT))
                               (int (length DEMO_SCRIPT))\<rparr>"

definition nextBeat :: "page \<Rightarrow> page" where
  "nextBeat s =
     s\<lparr>scriptIndex := js_rem (scriptIndex s + 1) (int (length DEMO_SCRIPT))\<rparr>"

text \<open>The class of a timeline entry (lines 244 to 251).\<close>

datatype timeline_status = timeline_pending | timeline_active | timeline_complete

definition status :: "page \<Rightarrow> int \<Rightarrow> timeline_status" where
  "status s index =
     (if index < stepIndex s then timeline_complete
      else if index = stepIndex s then timeline_active
      else if phase s = complete then timeline_complete
      else timeline_pending)"

subsection \<open>Renders and effects\<close>

text \<open>React calls the cleanup function that the sequence effect returned last, if any.\<close>

definition run_cleanup :: "page \<Rightarrow> page" where
  "run_cleanup s = (case cleanup s of None \<Rightarrow> s | Some r \<Rightarrow> sequence_cleanup r s)"

text \<open>
  One render and the flush of its effects. The dependency arrays are
  \<open>[phase, runToken, onComplete]\<close>, \<open>[phase]\<close> and \<open>[phase, stepIndex]\<close>;
  \<open>onComplete\<close> is a \<open>useCallback\<close> with no dependency and never changes.
\<close>

definition commit :: "page \<Rightarrow> page" where
  "commit s =
     (let ph = phase s; tok = runToken s; si = stepIndex s;
          d1 = (case deps s of None \<Rightarrow> True | Some (p, t, x) \<Rightarrow> p \<noteq> ph \<or> t \<noteq> tok);
          d2 = (case deps s of None \<Rightarrow> True | Some (p, t, x) \<Rightarrow> p \<noteq> ph);
          d3 = (case deps s of None \<Rightarrow> True | Some (p, t, x) \<Rightarrow> p \<noteq> ph \<or> x \<noteq> si);
          s0 = s\<lparr>deps := Some (ph, tok, si)\<rparr>;
          s1 = (if d1 then run_cleanup s0 else s0);
          s2 = (if d1 then sequence_effect ph s1 else s1);
          s3 = (if d2 then complete_effect ph s2 else s2)
      in if d3 then narration_effect ph si s3 else s3)"

definition settle_measure :: "page \<Rightarrow> nat" where
  "settle_measure s =
     (case deps s of
        None \<Rightarrow> 2
      | Some (p, t, x) \<Rightarrow>
          if p = phase s \<and> t = runToken s then (if x = stepIndex s then 0 else 1) else 2)"

text \<open>Renders follow one another until no effect has anything left to do.\<close>

function settle :: "page \<Rightarrow> page" where
  "settle s =
     (if deps s = Some (phase s, runToken s, stepIndex s) then s
      else settle (commit s))"
  by pat_completeness auto
termination
proof (relation "measure settle_measure")
  show "wf (measure settle_measure)" by simp
next
  fix s :: page
  assume unsettled: "deps s \<noteq> Some (phase s, runToken s, stepIndex s)"
  have len: "length STEP_SEQUENCE = 5"
    by (simp add: STEP_SEQUENCE_def)
  have seq: "phase (sequence_effect ph u) = phase u"
    "runToken (sequence_effect ph u) = runToken u"
    "deps (sequence_effect ph u) = deps u" for ph u
    by (simp_all add: sequence_effect_def executeSequence_from_def Let_def
        setTimeout_resolve_def len)
  have cln: "phase (run_cleanup u) = phase u"
    "runToken (run_cleanup u) = runToken u"
    "stepIndex (run_cleanup u) = stepIndex u"
    "deps (run_cleanup u) = deps u" for u
    by (simp_all add: run_cleanup_def sequence_cleanup_def split: option.splits)
  have com: "phase (complete_effect ph u) = phase u"
    "runToken (complete_effect ph u) = runToken u"
    "stepIndex (complete_effect ph u) = stepIndex u"
    "deps (complete_effect ph u) = deps u" for ph u
    by (simp_all add: complete_effect_def)
  have nar: "phase (narration_effect ph si u) = phase u"
    "runToken (narration_effect ph si u) = runToken u"
    "stepIndex (narration_effect ph si u) = stepIndex u"
    "deps (narration_effect ph si u) = deps u" for ph si u
    by (simp_all add: narration_effect_def)
  have frame: "phase (commit s) = phase s" "runToken (commit s) = runToken s"
    "deps (commit s) = Some (phase s, runToken s, stepIndex s)"
    by (simp_all add: commit_def Let_def seq cln com nar split: option.splits)
  have less: "settle_measure (commit s) < settle_measure s"
  proof (cases "\<exists>x. deps s = Some (phase s, runToken s, x)")
    case True
    then obtain x where x: "deps s = Some (phase s, runToken s, x)" ..
    with unsettled have "x \<noteq> stepIndex s" by auto
    with x have "settle_measure s = 1" by (simp add: settle_measure_def)
    moreover from x have "stepIndex (commit s) = stepIndex s"
      by (simp add: commit_def Let_def nar)
    then have "settle_measure (commit s) = 0"
      by (simp add: settle_measure_def frame)
    ultimately show ?thesis by simp
  next
    case False
    then have "settle_measure s = 2"
      by (auto simp: settle_measure_def split: option.splits)
    moreover have "settle_measure (commit s) \<le> 1"
      by (simp add: settle_measure_def frame)
    ultimately show ?thesis by simp
  qed
  then show "(commit s, s) \<in> measure settle_measure" by simp
qed

declare settle.simps [simp del]

subsection \<open>Events\<close>

text \<open>
  A timer that is still pending fires: the promise resolves, the run it belongs to
  continues, and the component renders.
\<close>

definition fire :: "pending_timer \<Rightarrow> page \<Rightarrow> page" where
  "fire t s =
     (if handle t \<in> handle ` set (timers s) then
        settle (resume (resolves t)
                  (s\<lparr>timers := filter (\<lambda>u. handle u \<noteq> handle t) (timers s)\<rparr>))
      else s)"

text \<open>One millisecond passes; the timers that are due fire in the order they were set.\<close>

definition tick :: "page \<Rightarrow> page" where
  "tick s =
     (let s1 = s\<lparr>clock := clock s + 1\<rparr>
      in fold fire (filter (\<lambda>t. due t \<le> clock s1) (timers s1)) s1)"

primrec elapse :: "nat \<Rightarrow> page \<Rightarrow> page" where
  "elapse 0 s = s"
| "elapse (Suc n) s = elapse n (tick s)"

datatype event =
  StartUnlock | ResetUnlock | TogglePreview | PreviousBeat | NextBeat | Elapse nat

fun react :: "event \<Rightarrow> page \<Rightarrow> page" where
  "react StartUnlock s = settle (startUnlock s)"
| "react ResetUnlock s = settle (resetUnlock s)"
| "react TogglePreview s = settle (togglePreview s)"
| "react PreviousBeat s = settle (previousBeat s)"
| "react NextBeat s = settle (nextBeat s)"
| "react (Elapse n) s = elapse n s"

declare react.simps [simp del]

definition exec :: "event list \<Rightarrow> page \<Rightarrow> page" where
  "exec evs s = foldl (\<lambda>s e. react e s) s evs"

text \<open>The page after its first render.\<close>

definition mount :: page where
  "mount = settle initial"

text \<open>The buttons \<open>Unlock Dark Mode\<close> and \<open>Reset Demo\<close> are disabled while running.\<close>

fun clickable :: "page \<Rightarrow> event \<Rightarrow> bool" where
  "clickable s StartUnlock = (phase s \<noteq> running)"
| "clickable s ResetUnlock = (phase s \<noteq> running)"
| "clickable s _ = True"

fun clicks :: "event list \<Rightarrow> page \<Rightarrow> bool" where
  "clicks [] s = True"
| "clicks (e # evs) s = (clickable s e \<and> clicks evs (react e s))"

text \<open>The time, counted from the start of a run, at which step \<open>k\<close> begins.\<close>

definition step_start :: "nat \<Rightarrow> nat" where
  "step_start k = sum_list (map duration (take k STEP_SEQUENCE))"

subsection \<open>Invariants\<close>

text \<open>The number of calls of the completion callback so far.\<close>

definition completions :: "page \<Rightarrow> nat" where
  "completions s = length (filter (\<lambda>e. snd e = OnComplete) (trace s))"

text \<open>
  Run \<open>r\<close> is playing step \<open>k\<close> and waits for timer \<open>t\<close>: the shape of every
  state of the phase \<open>running\<close> between two events.
\<close>

definition playing :: "page \<Rightarrow> nat \<Rightarrow> nat \<Rightarrow> pending_timer \<Rightarrow> bool" where
  "playing s r k t \<longleftrightarrow>
     phase s = running \<and> deps s = Some (running, runToken s, int k) \<and>
     cleanup s = Some r \<and> r < length (runs s) \<and> \<not> cancelled (runs s ! r) \<and>
     loop_i (runs s ! r) = k \<and> k < length STEP_SEQUENCE \<and>
     stepIndex s = int k \<and> progress s = step_progress k \<and>
     timers s = [t] \<and> resolves t = r \<and> handle t \<in> set (timeouts (runs s ! r)) \<and>
     clock s < due t \<and> due t \<le> clock s + duration (STEP_SEQUENCE ! k)"

text \<open>The shape of every state of the phases \<open>idle\<close> and \<open>complete\<close>.\<close>

definition resting :: "page \<Rightarrow> bool" where
  "resting s \<longleftrightarrow>
     deps s = Some (phase s, runToken s, stepIndex s) \<and> cleanup s = None \<and>
     timers s = [] \<and>
     (phase s = idle \<and> stepIndex s = - 1 \<and> progress s = 0 \<or>
      phase s = complete \<and> stepIndex s = int (length STEP_SEQUENCE) - 1 \<and>
        progress s = 100)"

definition page_inv :: "page \<Rightarrow> bool" where
  "page_inv s \<longleftrightarrow>
     0 \<le> scriptIndex s \<and> scriptIndex s < int (length DEMO_SCRIPT) \<and>
     (\<forall>r<length (runs s). cleanup s \<noteq> Some r \<longrightarrow> cancelled (runs s ! r)) \<and>
     (\<forall>e\<in>set (trace s). fst e < length (runs s)) \<and>
     (if phase s = running then (\<exists>r k t. playing s r k t) else resting s)"

text \<open>
  From \<open>s\<close> to \<open>s'\<close> no run is forgotten, a cancelled run stays cancelled, the trace
  only grows, and what it grows by was written by runs that were not cancelled in \<open>s\<close>.
\<close>

definition extends :: "page \<Rightarrow> page \<Rightarrow> bool" where
  "extends s s' \<longleftrightarrow>
     length (runs s) \<le> length (runs s') \<and>
     (\<forall>r<length (runs s). cancelled (runs s ! r) \<longrightarrow> cancelled (runs s' ! r)) \<and>
     (\<exists>new. trace s' = trace s @ new \<and>
        (\<forall>e\<in>set new. fst e < length (runs s) \<longrightarrow> \<not> cancelled (runs s ! fst e)))"

subsection \<open>Basic facts\<close>

lemma length_STEP_SEQUENCE: "length STEP_SEQUENCE = 5"
  by (simp add: STEP_SEQUENCE_def)

lemma length_DEMO_SCRIPT: "length DEMO_SCRIPT = 3"
  by (simp add: DEMO_SCRIPT_def)

lemma step_progress_eq: "step_progress k = 15 * (int k + 1)"
proof -
  have "(of_nat (k + 1) / of_nat (length STEP_SEQUENCE + 1)) * 90 + 1 / 2
        = (of_int (15 * (int k + 1)) :: rat) + 1 / 2"
    by (simp add: length_STEP_SEQUENCE field_simps)
  then have "step_progress k = \<lfloor>(of_int (15 * (int k + 1)) :: rat) + 1 / 2\<rfloor>"
    by (simp only: step_progress_def Math_round_def)
  also have "\<dots> = 15 * (int k + 1)"
    by (rule floor_unique) simp_all
  finally show ?thesis .
qed

lemma settle_settled:
  "deps s = Some (phase s, runToken s, stepIndex s) \<Longrightarrow> settle s = s"
  by (simp add: settle.simps)

lemma settle_unsettled:
  "deps s \<noteq> Some (phase s, runToken s, stepIndex s) \<Longrightarrow> settle s = settle (commit s)"
  by (subst settle.simps) simp

lemma tick_no_timer: "timers s = [] \<Longrightarrow> tick s = s\<lparr>clock := clock s + 1\<rparr>"
  by (simp add: tick_def)

lemma elapse_no_timer: "timers s = [] \<Longrightarrow> elapse n s = s\<lparr>clock := clock s + n\<rparr>"
  by (induction n arbitrary: s) (simp_all add: tick_no_timer)

lemma tick_early:
  "timers s = [t] \<Longrightarrow> clock s + 1 < due t \<Longrightarrow> tick s = s\<lparr>clock := clock s + 1\<rparr>"
  by (simp add: tick_def)

lemma elapse_early:
  "timers s = [t] \<Longrightarrow> clock s + n < due t \<Longrightarrow> elapse n s = s\<lparr>clock := clock s + n\<rparr>"
  by (induction n arbitrary: s) (simp_all add: tick_early)

lemma tick_due:
  "timers s = [t] \<Longrightarrow> due t \<le> clock s + 1 \<Longrightarrow>
   tick s = settle (resume (resolves t) (s\<lparr>clock := clock s + 1, timers := []\<rparr>))"
  by (simp add: tick_def fire_def)

lemma elapse_add: "elapse (m + n) s = elapse n (elapse m s)"
  by (induction m arbitrary: s) simp_all

lemma elapse_Suc_right: "elapse (Suc n) s = tick (elapse n s)"
  using elapse_add [of n 1 s] by simp

subsection \<open>The cleanup\<close>

lemma run_cleanup_resting: "resting s \<Longrightarrow> run_cleanup s = s"
  by (simp add: resting_def run_cleanup_def)

lemma run_cleanup_playing:
  "playing s r k t \<Longrightarrow>
   run_cleanup s = s\<lparr>runs := (runs s)[r := (runs s ! r)\<lparr>cancelled := True\<rparr>], timers := []\<rparr>"
  by (simp add: playing_def run_cleanup_def sequence_cleanup_def)

lemma run_cleanup_inv:
  assumes "page_inv s"
  shows "timers (run_cleanup s) = []"
    and "length (runs (run_cleanup s)) = length (runs s)"
    and "\<forall>r<length (runs s). cancelled (runs (run_cleanup s) ! r)"
    and "trace (run_cleanup s) = trace s"
proof -
  show "timers (run_cleanup s) = []"
    using assms
    by (auto simp: page_inv_def run_cleanup_playing run_cleanup_resting resting_def
        split: if_splits)
  show "length (runs (run_cleanup s)) = length (runs s)"
    by (simp add: run_cleanup_def sequence_cleanup_def split: option.splits)
  show "\<forall>r<length (runs s). cancelled (runs (run_cleanup s) ! r)"
  proof (cases "phase s = running")
    case True
    with assms obtain r k t where p: "playing s r k t"
      by (auto simp: page_inv_def)
    then have "cleanup s = Some r" by (simp add: playing_def)
    with assms have "\<forall>q<length (runs s). q \<noteq> r \<longrightarrow> cancelled (runs s ! q)"
      by (simp add: page_inv_def)
    moreover from p have "r < length (runs s)" by (simp add: playing_def)
    ultimately show ?thesis
      by (auto simp: run_cleanup_playing [OF p] nth_list_update)
  next
    case False
    with assms have "resting s" by (simp add: page_inv_def)
    with assms show ?thesis
      by (simp add: run_cleanup_resting page_inv_def resting_def)
  qed
  show "trace (run_cleanup s) = trace s"
    by (simp add: run_cleanup_def sequence_cleanup_def split: option.splits)
qed

lemma page_inv_settled:
  "page_inv s \<Longrightarrow> deps s = Some (phase s, runToken s, stepIndex s)"
  by (auto simp: page_inv_def playing_def resting_def split: if_splits)


subsection \<open>Closed forms of the handlers\<close>

lemma run_cleanup_fields [simp]:
  "phase (run_cleanup s) = phase s"
  "runToken (run_cleanup s) = runToken s"
  "previewMode (run_cleanup s) = previewMode s"
  "scriptIndex (run_cleanup s) = scriptIndex s"
  "stepIndex (run_cleanup s) = stepIndex s"
  "progress (run_cleanup s) = progress s"
  "deps (run_cleanup s) = deps s"
  "cleanup (run_cleanup s) = cleanup s"
  "clock (run_cleanup s) = clock s"
  "next_handle (run_cleanup s) = next_handle s"
  "trace (run_cleanup s) = trace s"
  "page.more (run_cleanup s) = page.more s"
  "length (runs (run_cleanup s)) = length (runs s)"
  by (simp_all add: run_cleanup_def sequence_cleanup_def split: option.splits)

lemma run_cleanup_cong:
  "cleanup s' = cleanup s \<Longrightarrow> runs s' = runs s \<Longrightarrow> timers s' = timers s \<Longrightarrow>
   runs (run_cleanup s') = runs (run_cleanup s) \<and>
   timers (run_cleanup s') = timers (run_cleanup s)"
  by (simp add: run_cleanup_def sequence_cleanup_def split: option.splits)

lemma nth_append_at: "length xs = n \<Longrightarrow> (xs @ x # ys) ! n = x"
  by auto

lemma list_update_append_at: "length xs = n \<Longrightarrow> (xs @ x # ys)[n := y] = xs @ y # ys"
  by auto

lemma react_StartUnlock_eq:
  assumes "page_inv s"
  shows "react StartUnlock s =
    s\<lparr>phase := running, runToken := runToken s + 1, previewMode := light,
      scriptIndex := 0, stepIndex := 0, progress := step_progress 0,
      deps := Some (running, runToken s + 1, 0), cleanup := Some (length (runs s)),
      runs := runs (run_cleanup s) @
              [\<lparr>cancelled = False, loop_i = 0, timeouts = [next_handle s]\<rparr>],
      timers := [\<lparr>handle = next_handle s,
                  due = clock s + duration (STEP_SEQUENCE ! 0),
                  resolves = length (runs s)\<rparr>],
      next_handle := next_handle s + 1,
      trace := trace s @ [(length (runs s), SetStepIndex 0),
                          (length (runs s), SetProgress (step_progress 0))]\<rparr>"
    (is "_ = ?goal")
proof -
  define u where "u = startUnlock s"
  define a where "a = ?goal\<lparr>scriptIndex := 0, deps := Some (running, runToken s + 1, - 1)\<rparr>"
  have ds: "deps s = Some (phase s, runToken s, stepIndex s)"
    using assms by (rule page_inv_settled)
  have u: "phase u = running" "runToken u = runToken s + 1" "stepIndex u = - 1"
    "deps u = Some (phase s, runToken s, stepIndex s)"
    by (simp_all add: u_def startUnlock_def resetSequence_def ds)
  have rc: "runs (run_cleanup (u\<lparr>deps := Some (running, runToken s + 1, - 1)\<rparr>))
      = runs (run_cleanup s)"
    "timers (run_cleanup (u\<lparr>deps := Some (running, runToken s + 1, - 1)\<rparr>)) = []"
    using run_cleanup_cong [of "u\<lparr>deps := Some (running, runToken s + 1, - 1)\<rparr>" s]
      run_cleanup_inv(1) [OF assms]
    by (simp_all add: u_def startUnlock_def resetSequence_def)
  have "react StartUnlock s = settle u"
    by (simp add: u_def react.simps)
  also have "\<dots> = settle (commit u)"
    by (rule settle_unsettled) (simp add: u)
  also have "commit u = a"
    unfolding a_def
    by (rule page.equality)
       (simp_all add: commit_def Let_def u rc sequence_effect_def executeSequence_from_def
         setTimeout_resolve_def complete_effect_def narration_effect_def
         length_STEP_SEQUENCE nth_append_at list_update_append_at,
        simp_all add: u_def startUnlock_def resetSequence_def)
  also have "settle a = settle (commit a)"
    by (rule settle_unsettled) (simp add: a_def)
  also have "commit a = ?goal"
    by (rule page.equality)
       (simp_all add: a_def commit_def Let_def narration_effect_def length_DEMO_SCRIPT)
  also have "settle ?goal = ?goal"
    by (rule settle_settled) simp
  finally show ?thesis .
qed


lemma react_ResetUnlock_eq:
  assumes "page_inv s"
  shows "react ResetUnlock s =
    s\<lparr>phase := idle, previewMode := light, scriptIndex := 0, stepIndex := - 1,
      progress := 0, deps := Some (idle, runToken s, - 1), cleanup := None,
      runs := runs (run_cleanup s), timers := []\<rparr>"
    (is "_ = ?goal")
proof (cases "phase s = idle")
  case True
  with assms have r: "resting s" "stepIndex s = - 1" "progress s = 0"
    by (simp_all add: page_inv_def resting_def)
  have "settle (resetUnlock s) = resetUnlock s"
    using r True by (intro settle_settled) (simp add: resetUnlock_def resetSequence_def resting_def)
  moreover have "resetUnlock s = ?goal"
    using r True
    by (intro page.equality)
       (simp_all add: resetUnlock_def resetSequence_def resting_def run_cleanup_resting)
  ultimately show ?thesis by (simp add: react.simps)
next
  case False
  define u where "u = resetUnlock s"
  have ds: "deps s = Some (phase s, runToken s, stepIndex s)"
    using assms by (rule page_inv_settled)
  have u: "phase u = idle" "runToken u = runToken s" "stepIndex u = - 1"
    "deps u = Some (phase s, runToken s, stepIndex s)"
    by (simp_all add: u_def resetUnlock_def resetSequence_def ds)
  have rc: "runs (run_cleanup (u\<lparr>deps := Some (idle, runToken s, - 1)\<rparr>))
      = runs (run_cleanup s)"
    "timers (run_cleanup (u\<lparr>deps := Some (idle, runToken s, - 1)\<rparr>)) = []"
    using run_cleanup_cong [of "u\<lparr>deps := Some (idle, runToken s, - 1)\<rparr>" s]
      run_cleanup_inv(1) [OF assms]
    by (simp_all add: u_def resetUnlock_def resetSequence_def)
  have "react ResetUnlock s = settle u"
    by (simp add: u_def react.simps)
  also have "\<dots> = settle (commit u)"
    by (rule settle_unsettled) (use False in \<open>simp add: u\<close>)
  also have "commit u = ?goal"
    by (rule page.equality)
       (use False in \<open>simp_all add: commit_def Let_def u rc sequence_effect_def
         complete_effect_def narration_effect_def\<close>,
        simp_all add: u_def resetUnlock_def resetSequence_def)
  also have "settle ?goal = ?goal"
    by (rule settle_settled) simp
  finally show ?thesis .
qed

lemma react_TogglePreview_eq: "page_inv s \<Longrightarrow> react TogglePreview s = togglePreview s"
  by (simp add: react.simps settle_settled togglePreview_def page_inv_settled)

lemma react_PreviousBeat_eq: "page_inv s \<Longrightarrow> react PreviousBeat s = previousBeat s"
  by (simp add: react.simps settle_settled previousBeat_def page_inv_settled)

lemma react_NextBeat_eq: "page_inv s \<Longrightarrow> react NextBeat s = nextBeat s"
  by (simp add: react.simps settle_settled nextBeat_def page_inv_settled)

subsection \<open>Closed forms of a tick\<close>

lemma tick_waiting:
  "playing s r k t \<Longrightarrow> clock s + 1 < due t \<Longrightarrow> tick s = s\<lparr>clock := clock s + 1\<rparr>"
  by (rule tick_early) (simp_all add: playing_def)

lemma tick_advance:
  assumes "playing s r k t" and "due t \<le> clock s + 1" and "k + 1 < length STEP_SEQUENCE"
  shows "tick s =
    s\<lparr>clock := clock s + 1, stepIndex := int (k + 1), progress := step_progress (k + 1),
      scriptIndex := (if k + 1 < length DEMO_SCRIPT then int (k + 1) else scriptIndex s),
      deps := Some (running, runToken s, int (k + 1)),
      runs := (runs s)[r := (runs s ! r)\<lparr>loop_i := k + 1,
                              timeouts := timeouts (runs s ! r) @ [next_handle s]\<rparr>],
      timers := [\<lparr>handle = next_handle s,
                  due = clock s + 1 + duration (STEP_SEQUENCE ! (k + 1)), resolves = r\<rparr>],
      next_handle := next_handle s + 1,
      trace := trace s @ [(r, SetStepIndex (int (k + 1))),
                          (r, SetProgress (step_progress (k + 1)))]\<rparr>"
    (is "_ = ?goal")
proof -
  from assms have t: "timers s = [t]" and rt: "resolves t = r"
    by (simp_all add: playing_def)
  define a where "a = s\<lparr>clock := clock s + 1, stepIndex := int (k + 1),
      progress := step_progress (k + 1),
      runs := (runs s)[r := (runs s ! r)\<lparr>loop_i := k + 1,
                              timeouts := timeouts (runs s ! r) @ [next_handle s]\<rparr>],
      timers := [\<lparr>handle = next_handle s,
                  due = clock s + 1 + duration (STEP_SEQUENCE ! (k + 1)), resolves = r\<rparr>],
      next_handle := next_handle s + 1,
      trace := trace s @ [(r, SetStepIndex (int (k + 1))),
                          (r, SetProgress (step_progress (k + 1)))]\<rparr>"
  have a: "resume r (s\<lparr>clock := clock s + 1, timers := []\<rparr>) = a"
    unfolding a_def
    by (rule page.equality)
       (use assms in \<open>simp_all add: playing_def resume_def executeSequence_from_def
          Let_def setTimeout_resolve_def\<close>)
  have "tick s = settle a"
    using tick_due [OF t assms(2)] by (simp only: rt a)
  also have "\<dots> = settle (commit a)"
    by (rule settle_unsettled) (use assms(1) in \<open>simp add: a_def playing_def\<close>)
  also have "commit a = ?goal"
    by (rule page.equality)
       (use assms(1) in \<open>simp_all add: a_def playing_def commit_def Let_def
          narration_effect_def\<close>)
  also have "settle ?goal = ?goal"
    by (rule settle_settled) (use assms(1) in \<open>simp add: playing_def\<close>)
  finally show ?thesis .
qed

lemma tick_finish:
  assumes "playing s r k t" and "due t \<le> clock s + 1" and "k + 1 = length STEP_SEQUENCE"
  shows "tick s =
    s\<lparr>clock := clock s + 1, phase := complete, previewMode := dark, scriptIndex := 2,
      progress := 100, deps := Some (complete, runToken s, int k), cleanup := None,
      runs := (runs s)[r := (runs s ! r)\<lparr>loop_i := k + 1, cancelled := True\<rparr>],
      timers := [],
      trace := trace s @ [(r, SetProgress 100), (r, OnComplete)]\<rparr>"
    (is "_ = ?goal")
proof -
  from assms have t: "timers s = [t]" and rt: "resolves t = r"
    by (simp_all add: playing_def)
  define a where "a = s\<lparr>clock := clock s + 1, phase := complete, progress := 100,
      runs := (runs s)[r := (runs s ! r)\<lparr>loop_i := k + 1\<rparr>],
      timers := [],
      trace := trace s @ [(r, SetProgress 100), (r, OnComplete)]\<rparr>"
  have a: "resume r (s\<lparr>clock := clock s + 1, timers := []\<rparr>) = a"
    unfolding a_def
    by (rule page.equality)
       (use assms in \<open>simp_all add: playing_def resume_def executeSequence_from_def
          Let_def handleSequenceComplete_def\<close>)
  have "tick s = settle a"
    using tick_due [OF t assms(2)] by (simp only: rt a)
  also have "\<dots> = settle (commit a)"
    by (rule settle_unsettled) (use assms(1) in \<open>simp add: a_def playing_def\<close>)
  also have "commit a = ?goal"
    by (rule page.equality)
       (use assms(1) in \<open>simp_all add: a_def playing_def commit_def Let_def
          run_cleanup_def sequence_cleanup_def sequence_effect_def complete_effect_def
          narration_effect_def\<close>)
  also have "settle ?goal = ?goal"
    by (rule settle_settled) (use assms(1) in \<open>simp add: playing_def\<close>)
  finally show ?thesis .
qed


subsection \<open>The invariant holds in every reachable state\<close>

lemma duration_pos: "k < length STEP_SEQUENCE \<Longrightarrow> 0 < duration (STEP_SEQUENCE ! k)"
proof -
  have "list_all (\<lambda>x. 0 < duration x) STEP_SEQUENCE"
    by (simp add: STEP_SEQUENCE_def)
  then show "k < length STEP_SEQUENCE \<Longrightarrow> 0 < duration (STEP_SEQUENCE ! k)"
    by (simp add: list_all_length)
qed

lemma mount_eq: "mount = initial\<lparr>deps := Some (idle, 0, - 1)\<rparr>"
proof -
  have "mount = settle (commit initial)"
    unfolding mount_def by (rule settle_unsettled) (simp add: initial_def)
  also have "commit initial = initial\<lparr>deps := Some (idle, 0, - 1)\<rparr>"
    by (simp add: commit_def initial_def Let_def run_cleanup_def sequence_effect_def
        complete_effect_def narration_effect_def)
  also have "settle \<dots> = \<dots>"
    by (rule settle_settled) (simp add: initial_def)
  finally show ?thesis .
qed

lemma page_inv_mount: "page_inv mount"
  by (simp add: mount_eq initial_def page_inv_def resting_def length_DEMO_SCRIPT)

lemma page_inv_StartUnlock:
  assumes "page_inv s"
  shows "page_inv (react StartUnlock s)"
proof -
  let ?t = "\<lparr>handle = next_handle s, due = clock s + duration (STEP_SEQUENCE ! 0),
             resolves = length (runs s)\<rparr>"
  have "playing (react StartUnlock s) (length (runs s)) 0 ?t"
    unfolding react_StartUnlock_eq [OF assms]
    using duration_pos [of 0]
    by (simp add: playing_def nth_append_at length_STEP_SEQUENCE)
  then have "\<exists>r k t. playing (react StartUnlock s) r k t"
    by blast
  moreover have "\<forall>r<length (runs (react StartUnlock s)).
      cleanup (react StartUnlock s) \<noteq> Some r \<longrightarrow> cancelled (runs (react StartUnlock s) ! r)"
    unfolding react_StartUnlock_eq [OF assms]
    using run_cleanup_inv(3) [OF assms]
    by (auto simp: nth_append less_Suc_eq)
  moreover have "\<forall>e\<in>set (trace (react StartUnlock s)).
      fst e < length (runs (react StartUnlock s))"
    unfolding react_StartUnlock_eq [OF assms]
    using assms by (auto simp: page_inv_def less_Suc_eq)
  moreover have "phase (react StartUnlock s) = running"
    "scriptIndex (react StartUnlock s) = 0"
    unfolding react_StartUnlock_eq [OF assms] by simp_all
  ultimately show ?thesis
    unfolding page_inv_def by (simp add: length_DEMO_SCRIPT)
qed

lemma page_inv_ResetUnlock:
  assumes "page_inv s"
  shows "page_inv (react ResetUnlock s)"
  unfolding react_ResetUnlock_eq [OF assms]
  using assms run_cleanup_inv(3) [OF assms]
  by (simp add: page_inv_def resting_def length_DEMO_SCRIPT)

lemma playing_frame:
  "playing s r k t \<Longrightarrow> playing (s\<lparr>scriptIndex := x\<rparr>) r k t"
  "playing s r k t \<Longrightarrow> playing (s\<lparr>previewMode := m\<rparr>) r k t"
  by (simp_all add: playing_def)

lemma resting_frame:
  "resting s \<Longrightarrow> resting (s\<lparr>scriptIndex := x\<rparr>)"
  "resting s \<Longrightarrow> resting (s\<lparr>previewMode := m\<rparr>)"
  by (simp_all add: resting_def)

lemma page_inv_scriptIndex_upd:
  "page_inv s \<Longrightarrow> 0 \<le> x \<Longrightarrow> x < int (length DEMO_SCRIPT) \<Longrightarrow>
   page_inv (s\<lparr>scriptIndex := x\<rparr>)"
  unfolding page_inv_def by (auto intro: resting_frame) (blast intro: playing_frame)

lemma page_inv_previewMode_upd:
  "page_inv s \<Longrightarrow> page_inv (s\<lparr>previewMode := m\<rparr>)"
  unfolding page_inv_def by (auto intro: resting_frame) (blast intro: playing_frame)

lemma page_inv_TogglePreview: "page_inv s \<Longrightarrow> page_inv (react TogglePreview s)"
  unfolding react_TogglePreview_eq togglePreview_def by (rule page_inv_previewMode_upd)

lemma js_rem_nonneg: "0 \<le> a \<Longrightarrow> 0 < b \<Longrightarrow> js_rem a b = a mod b"
  by (cases "a = 0") (simp_all add: js_rem_def)

lemma page_inv_PreviousBeat:
  assumes "page_inv s"
  shows "page_inv (react PreviousBeat s)"
  unfolding react_PreviousBeat_eq [OF assms] previousBeat_def
  using assms
  by (intro page_inv_scriptIndex_upd)
     (simp_all add: page_inv_def length_DEMO_SCRIPT js_rem_nonneg)

lemma page_inv_NextBeat:
  assumes "page_inv s"
  shows "page_inv (react NextBeat s)"
  unfolding react_NextBeat_eq [OF assms] nextBeat_def
  using assms
  by (intro page_inv_scriptIndex_upd)
     (simp_all add: page_inv_def length_DEMO_SCRIPT js_rem_nonneg)


lemma tick_cases [consumes 1, case_names rest wait advance finish]:
  assumes "page_inv s"
  obtains
    "resting s" and "phase s \<noteq> running" and "tick s = s\<lparr>clock := clock s + 1\<rparr>"
  | r k t where "playing s r k t" and "clock s + 1 < due t"
      and "tick s = s\<lparr>clock := clock s + 1\<rparr>"
  | r k t where "playing s r k t" and "due t = clock s + 1"
      and "k + 1 < length STEP_SEQUENCE"
      and "tick s =
        s\<lparr>clock := clock s + 1, stepIndex := int (k + 1),
          progress := step_progress (k + 1),
          scriptIndex := (if k + 1 < length DEMO_SCRIPT then int (k + 1) else scriptIndex s),
          deps := Some (running, runToken s, int (k + 1)),
          runs := (runs s)[r := (runs s ! r)\<lparr>loop_i := k + 1,
                                  timeouts := timeouts (runs s ! r) @ [next_handle s]\<rparr>],
          timers := [\<lparr>handle = next_handle s,
                      due = clock s + 1 + duration (STEP_SEQUENCE ! (k + 1)), resolves = r\<rparr>],
          next_handle := next_handle s + 1,
          trace := trace s @ [(r, SetStepIndex (int (k + 1))),
                              (r, SetProgress (step_progress (k + 1)))]\<rparr>"
  | r k t where "playing s r k t" and "due t = clock s + 1"
      and "k + 1 = length STEP_SEQUENCE"
      and "tick s =
        s\<lparr>clock := clock s + 1, phase := complete, previewMode := dark, scriptIndex := 2,
          progress := 100, deps := Some (complete, runToken s, int k), cleanup := None,
          runs := (runs s)[r := (runs s ! r)\<lparr>loop_i := k + 1, cancelled := True\<rparr>],
          timers := [],
          trace := trace s @ [(r, SetProgress 100), (r, OnComplete)]\<rparr>"
proof (cases "phase s = running")
  case False
  with assms have r: "resting s" by (simp add: page_inv_def)
  then have "tick s = s\<lparr>clock := clock s + 1\<rparr>"
    by (intro tick_no_timer) (simp add: resting_def)
  with r False show ?thesis by (rule that(1))
next
  case True
  with assms obtain r k t where p: "playing s r k t"
    by (auto simp: page_inv_def)
  then have c: "clock s < due t" and k: "k < length STEP_SEQUENCE"
    by (simp_all add: playing_def)
  show ?thesis
  proof (cases "clock s + 1 < due t")
    case True
    with p show ?thesis by (rule that(2)) (rule tick_waiting [OF p True])
  next
    case False
    with c have d: "due t = clock s + 1" and d': "due t \<le> clock s + 1" by simp_all
    show ?thesis
    proof (cases "k + 1 < length STEP_SEQUENCE")
      case True
      with p d show ?thesis by (rule that(3)) (rule tick_advance [OF p d' True])
    next
      case False
      with k have e: "k + 1 = length STEP_SEQUENCE" by simp
      with p d show ?thesis by (rule that(4)) (rule tick_finish [OF p d' e])
    qed
  qed
qed

lemma page_inv_tick:
  assumes "page_inv s"
  shows "page_inv (tick s)"
  using assms
proof (cases rule: tick_cases)
  case rest
  with assms show ?thesis
    by (simp add: page_inv_def resting_def)
next
  case (wait r k t)
  from wait(1,2) have "playing (s\<lparr>clock := clock s + 1\<rparr>) r k t"
    by (simp add: playing_def)
  with assms wait(1) show ?thesis
    unfolding wait(3) page_inv_def by (auto simp: playing_def)
next
  case (advance r k t)
  let ?t = "\<lparr>handle = next_handle s,
             due = clock s + 1 + duration (STEP_SEQUENCE ! (k + 1)), resolves = r\<rparr>"
  from advance(1) have r: "r < length (runs s)" "cleanup s = Some r" "phase s = running"
    by (simp_all add: playing_def)
  have "playing (tick s) r (k + 1) ?t"
    unfolding advance(4)
    using advance(1,3) duration_pos [OF advance(3)]
    by (simp add: playing_def)
  then have "\<exists>r k t. playing (tick s) r k t" by blast
  moreover have "phase (tick s) = running"
    unfolding advance(4) using r by simp
  moreover have "0 \<le> scriptIndex (tick s) \<and> scriptIndex (tick s) < int (length DEMO_SCRIPT)"
    unfolding advance(4) using assms by (simp add: page_inv_def)
  moreover have "\<forall>q<length (runs (tick s)).
      cleanup (tick s) \<noteq> Some q \<longrightarrow> cancelled (runs (tick s) ! q)"
    unfolding advance(4) using assms r by (simp add: page_inv_def nth_list_update)
  moreover have "\<forall>e\<in>set (trace (tick s)). fst e < length (runs (tick s))"
    unfolding advance(4) using assms r by (simp add: page_inv_def)
  ultimately show ?thesis
    unfolding page_inv_def by simp
next
  case (finish r k t)
  from finish(1) have r: "r < length (runs s)" "cleanup s = Some r" "phase s = running"
    by (simp_all add: playing_def)
  have "resting (tick s)"
    unfolding finish(4) using finish(1,3) by (simp add: resting_def playing_def)
  moreover have "phase (tick s) \<noteq> running"
    unfolding finish(4) by simp
  moreover have "0 \<le> scriptIndex (tick s) \<and> scriptIndex (tick s) < int (length DEMO_SCRIPT)"
    unfolding finish(4) by (simp add: length_DEMO_SCRIPT)
  moreover have "\<forall>q<length (runs (tick s)).
      cleanup (tick s) \<noteq> Some q \<longrightarrow> cancelled (runs (tick s) ! q)"
    unfolding finish(4) using assms r by (simp add: page_inv_def nth_list_update)
  moreover have "\<forall>e\<in>set (trace (tick s)). fst e < length (runs (tick s))"
    unfolding finish(4) using assms r by (simp add: page_inv_def)
  ultimately show ?thesis
    unfolding page_inv_def by simp
qed

lemma page_inv_elapse: "page_inv s \<Longrightarrow> page_inv (elapse n s)"
  by (induction n arbitrary: s) (simp_all add: page_inv_tick)

lemma page_inv_react: "page_inv s \<Longrightarrow> page_inv (react e s)"
  by (cases e)
     (simp_all only: page_inv_StartUnlock page_inv_ResetUnlock page_inv_TogglePreview
        page_inv_PreviousBeat page_inv_NextBeat page_inv_elapse react.simps(6))

lemma exec_snoc: "exec (evs @ [e]) s = react e (exec evs s)"
  by (simp add: exec_def)

lemma exec_Nil: "exec [] s = s"
  by (simp add: exec_def)

lemma exec_Cons: "exec (e # evs) s = exec evs (react e s)"
  by (simp add: exec_def)

lemma page_inv_exec: "page_inv s \<Longrightarrow> page_inv (exec evs s)"
  by (induction evs rule: rev_induct) (simp_all add: exec_snoc page_inv_react, simp add: exec_def)

lemma page_inv_reachable: "page_inv (exec evs mount)"
  by (rule page_inv_exec) (rule page_inv_mount)

subsection \<open>The run token\<close>

lemma runToken_commit: "runToken (commit s) = runToken s"
  by (simp add: commit_def Let_def sequence_effect_def executeSequence_from_def
      setTimeout_resolve_def handleSequenceComplete_def complete_effect_def
      narration_effect_def)

lemma runToken_settle: "runToken (settle s) = runToken s"
  by (induction s rule: settle.induct) (subst settle.simps, simp add: runToken_commit)

lemma runToken_resume: "runToken (resume r s) = runToken s"
  by (simp add: resume_def executeSequence_from_def Let_def setTimeout_resolve_def
      handleSequenceComplete_def)

lemma runToken_fire: "runToken (fire t s) = runToken s"
  by (simp add: fire_def runToken_settle runToken_resume)

lemma runToken_fold_fire: "runToken (fold fire ts s) = runToken s"
  by (induction ts arbitrary: s) (simp_all add: runToken_fire)

lemma runToken_tick: "runToken (tick s) = runToken s"
  by (simp add: tick_def Let_def runToken_fold_fire)

lemma runToken_elapse: "runToken (elapse n s) = runToken s"
  by (induction n arbitrary: s) (simp_all add: runToken_tick)

lemma runToken_react:
  "runToken (react e s) = (if e = StartUnlock then runToken s + 1 else runToken s)"
  by (cases e)
     (simp_all add: react.simps runToken_settle runToken_elapse startUnlock_def resetUnlock_def
        resetSequence_def togglePreview_def previousBeat_def nextBeat_def)

lemma runToken_exec:
  "runToken (exec evs s) = runToken s + int (count_list evs StartUnlock)"
  by (induction evs rule: rev_induct) (simp_all add: exec_snoc runToken_react, simp add: exec_def)

subsection \<open>From one step to the next\<close>

lemma durations:
  "duration (STEP_SEQUENCE ! 0) = 1200"
  "duration (STEP_SEQUENCE ! 1) = 1500"
  "duration (STEP_SEQUENCE ! Suc 0) = 1500"
  "duration (STEP_SEQUENCE ! 2) = 1400"
  "duration (STEP_SEQUENCE ! 3) = 1100"
  "duration (STEP_SEQUENCE ! 4) = 1300"
  by (simp_all add: STEP_SEQUENCE_def)

lemma playing_wait:
  "playing s r k t \<Longrightarrow> clock s + n < due t \<Longrightarrow> playing (s\<lparr>clock := clock s + n\<rparr>) r k t"
  by (simp add: playing_def)

lemma elapse_waiting:
  "playing s r k t \<Longrightarrow> clock s + n < due t \<Longrightarrow> elapse n s = s\<lparr>clock := clock s + n\<rparr>"
  by (rule elapse_early) (simp_all add: playing_def)

lemma elapse_to_due:
  assumes "playing s r k t" and "due t = clock s + Suc d"
  shows "elapse (Suc d) s = tick (s\<lparr>clock := clock s + d\<rparr>)"
proof -
  have "elapse (Suc d) s = tick (elapse d s)"
    by (rule elapse_Suc_right)
  also have "elapse d s = s\<lparr>clock := clock s + d\<rparr>"
    by (rule elapse_waiting [OF assms(1)]) (simp add: assms(2))
  finally show ?thesis .
qed

lemma elapse_advance:
  assumes "playing s r k t" and "due t = clock s + d" and "k + 1 < length STEP_SEQUENCE"
  shows "elapse d s =
    s\<lparr>clock := clock s + d, stepIndex := int (k + 1), progress := step_progress (k + 1),
      scriptIndex := (if k + 1 < length DEMO_SCRIPT then int (k + 1) else scriptIndex s),
      deps := Some (running, runToken s, int (k + 1)),
      runs := (runs s)[r := (runs s ! r)\<lparr>loop_i := k + 1,
                              timeouts := timeouts (runs s ! r) @ [next_handle s]\<rparr>],
      timers := [\<lparr>handle = next_handle s,
                  due = clock s + d + duration (STEP_SEQUENCE ! (k + 1)), resolves = r\<rparr>],
      next_handle := next_handle s + 1,
      trace := trace s @ [(r, SetStepIndex (int (k + 1))),
                          (r, SetProgress (step_progress (k + 1)))]\<rparr>"
proof -
  from assms(1,2) obtain d' where d: "d = Suc d'"
    by (cases d) (simp_all add: playing_def)
  have p: "playing (s\<lparr>clock := clock s + d'\<rparr>) r k t"
    using assms(1,2) by (intro playing_wait) (simp_all add: d)
  have "elapse d s = tick (s\<lparr>clock := clock s + d'\<rparr>)"
    unfolding d using assms(1,2) by (intro elapse_to_due) (simp_all add: d)
  also have "\<dots> = (s\<lparr>clock := clock s + d'\<rparr>)
    \<lparr>clock := clock (s\<lparr>clock := clock s + d'\<rparr>) + 1, stepIndex := int (k + 1),
      progress := step_progress (k + 1),
      scriptIndex := (if k + 1 < length DEMO_SCRIPT then int (k + 1)
                      else scriptIndex (s\<lparr>clock := clock s + d'\<rparr>)),
      deps := Some (running, runToken (s\<lparr>clock := clock s + d'\<rparr>), int (k + 1)),
      runs := (runs (s\<lparr>clock := clock s + d'\<rparr>))
                [r := (runs (s\<lparr>clock := clock s + d'\<rparr>) ! r)
                   \<lparr>loop_i := k + 1,
                     timeouts := timeouts (runs (s\<lparr>clock := clock s + d'\<rparr>) ! r) @
                                 [next_handle (s\<lparr>clock := clock s + d'\<rparr>)]\<rparr>],
      timers := [\<lparr>handle = next_handle (s\<lparr>clock := clock s + d'\<rparr>),
                  due = clock (s\<lparr>clock := clock s + d'\<rparr>) + 1 +
                        duration (STEP_SEQUENCE ! (k + 1)), resolves = r\<rparr>],
      next_handle := next_handle (s\<lparr>clock := clock s + d'\<rparr>) + 1,
      trace := trace (s\<lparr>clock := clock s + d'\<rparr>) @
                 [(r, SetStepIndex (int (k + 1))),
                  (r, SetProgress (step_progress (k + 1)))]\<rparr>"
    using assms(2) by (intro tick_advance [OF p _ assms(3)]) (simp add: d)
  finally show ?thesis
    by (simp add: d)
qed


lemma elapse_finish:
  assumes "playing s r k t" and "due t = clock s + d" and "k + 1 = length STEP_SEQUENCE"
  shows "elapse d s =
    s\<lparr>clock := clock s + d, phase := complete, previewMode := dark, scriptIndex := 2,
      progress := 100, deps := Some (complete, runToken s, int k), cleanup := None,
      runs := (runs s)[r := (runs s ! r)\<lparr>loop_i := k + 1, cancelled := True\<rparr>],
      timers := [],
      trace := trace s @ [(r, SetProgress 100), (r, OnComplete)]\<rparr>"
proof -
  from assms(1,2) obtain d' where d: "d = Suc d'"
    by (cases d) (simp_all add: playing_def)
  have p: "playing (s\<lparr>clock := clock s + d'\<rparr>) r k t"
    using assms(1,2) by (intro playing_wait) (simp_all add: d)
  have "elapse d s = tick (s\<lparr>clock := clock s + d'\<rparr>)"
    unfolding d using assms(1,2) by (intro elapse_to_due) (simp_all add: d)
  also have "\<dots> = (s\<lparr>clock := clock s + d'\<rparr>)
    \<lparr>clock := clock (s\<lparr>clock := clock s + d'\<rparr>) + 1, phase := complete,
      previewMode := dark, scriptIndex := 2, progress := 100,
      deps := Some (complete, runToken (s\<lparr>clock := clock s + d'\<rparr>), int k),
      cleanup := None,
      runs := (runs (s\<lparr>clock := clock s + d'\<rparr>))
                [r := (runs (s\<lparr>clock := clock s + d'\<rparr>) ! r)
                   \<lparr>loop_i := k + 1, cancelled := True\<rparr>],
      timers := [],
      trace := trace (s\<lparr>clock := clock s + d'\<rparr>) @
                 [(r, SetProgress 100), (r, OnComplete)]\<rparr>"
    using assms(2) by (intro tick_finish [OF p _ assms(3)]) (simp add: d)
  finally show ?thesis
    by (simp add: d)
qed

lemma stage_next:
  assumes "playing s r k t" and "due t = clock s + d" and "k' = k + 1"
    and "k' < length STEP_SEQUENCE"
  shows "\<exists>t'. playing (elapse d s) r k' t' \<and>
           due t' = clock (elapse d s) + duration (STEP_SEQUENCE ! k')"
    and "previewMode (elapse d s) = previewMode s"
    and "runToken (elapse d s) = runToken s"
    and "scriptIndex (elapse d s) =
           (if k' < length DEMO_SCRIPT then int k' else scriptIndex s)"
    and "trace (elapse d s) =
           trace s @ [(r, SetStepIndex (int k')), (r, SetProgress (step_progress k'))]"
    and "length (runs (elapse d s)) = length (runs s)"
proof -
  from assms(3,4) have k: "k + 1 < length STEP_SEQUENCE" by simp
  note e = elapse_advance [OF assms(1,2) k]
  let ?t = "\<lparr>handle = next_handle s,
        due = clock s + d + duration (STEP_SEQUENCE ! (k + 1)), resolves = r\<rparr>"
  have "playing (elapse d s) r (k + 1) ?t"
    unfolding e using assms(1) k duration_pos [OF k]
    by (simp add: playing_def)
  moreover have "due ?t = clock (elapse d s) + duration (STEP_SEQUENCE ! (k + 1))"
    unfolding e by simp
  ultimately show "\<exists>t'. playing (elapse d s) r k' t' \<and>
           due t' = clock (elapse d s) + duration (STEP_SEQUENCE ! k')"
    unfolding assms(3) by blast
  show "previewMode (elapse d s) = previewMode s" "runToken (elapse d s) = runToken s"
    "scriptIndex (elapse d s) =
           (if k' < length DEMO_SCRIPT then int k' else scriptIndex s)"
    "trace (elapse d s) =
           trace s @ [(r, SetStepIndex (int k')), (r, SetProgress (step_progress k'))]"
    "length (runs (elapse d s)) = length (runs s)"
    unfolding e assms(3) by simp_all
qed

lemma stage_first:
  assumes "page_inv s"
  shows "\<exists>t. playing (react StartUnlock s) (length (runs s)) 0 t \<and>
           due t = clock (react StartUnlock s) + duration (STEP_SEQUENCE ! 0)"
    and "previewMode (react StartUnlock s) = light"
    and "scriptIndex (react StartUnlock s) = 0"
    and "trace (react StartUnlock s) =
           trace s @ [(length (runs s), SetStepIndex 0),
                      (length (runs s), SetProgress (step_progress 0))]"
    and "length (runs (react StartUnlock s)) = length (runs s) + 1"
    and "clock (react StartUnlock s) = clock s"
    and "runToken (react StartUnlock s) = runToken s + 1"
proof -
  note e = react_StartUnlock_eq [OF assms]
  let ?t = "\<lparr>handle = next_handle s, due = clock s + duration (STEP_SEQUENCE ! 0),
        resolves = length (runs s)\<rparr>"
  have "playing (react StartUnlock s) (length (runs s)) 0 ?t"
    unfolding e using duration_pos [of 0]
    by (simp add: playing_def nth_append_at length_STEP_SEQUENCE)
  moreover have "due ?t = clock (react StartUnlock s) + duration (STEP_SEQUENCE ! 0)"
    unfolding e by simp
  ultimately show "\<exists>t. playing (react StartUnlock s) (length (runs s)) 0 t \<and>
           due t = clock (react StartUnlock s) + duration (STEP_SEQUENCE ! 0)"
    by blast
  show "previewMode (react StartUnlock s) = light" "scriptIndex (react StartUnlock s) = 0"
    "trace (react StartUnlock s) =
           trace s @ [(length (runs s), SetStepIndex 0),
                      (length (runs s), SetProgress (step_progress 0))]"
    "length (runs (react StartUnlock s)) = length (runs s) + 1"
    "clock (react StartUnlock s) = clock s"
    "runToken (react StartUnlock s) = runToken s + 1"
    unfolding e by simp_all
qed

lemma run_to_completion:
  assumes "page_inv s"
  defines "s' \<equiv> elapse 6500 (react StartUnlock s)"
  shows "phase s' = complete" and "previewMode s' = dark" and "progress s' = 100"
    and "stepIndex s' = 4" and "scriptIndex s' = 2"
    and "trace s' = trace s @ map (Pair (length (runs s)))
          [SetStepIndex 0, SetProgress 15, SetStepIndex 1, SetProgress 30,
           SetStepIndex 2, SetProgress 45, SetStepIndex 3, SetProgress 60,
           SetStepIndex 4, SetProgress 75, SetProgress 100, OnComplete]"
    and "timers s' = []" and "cleanup s' = None"
proof -
  define r where "r = length (runs s)"
  define s0 where "s0 = react StartUnlock s"
  define s1 where "s1 = elapse 1200 s0"
  define s2 where "s2 = elapse 1500 s1"
  define s3 where "s3 = elapse 1400 s2"
  define s4 where "s4 = elapse 1100 s3"
  have s': "s' = elapse 1300 s4"
    unfolding s'_def s4_def s3_def s2_def s1_def s0_def
    using elapse_add [of 1200 5300 "react StartUnlock s"]
      elapse_add [of 1500 3800 "elapse 1200 (react StartUnlock s)"]
      elapse_add [of 1400 2400 "elapse 1500 (elapse 1200 (react StartUnlock s))"]
      elapse_add [of 1100 1300 "elapse 1400 (elapse 1500 (elapse 1200 (react StartUnlock s)))"]
    by simp
  have n: "(1::nat) = 0 + 1" "(2::nat) = 1 + 1" "(3::nat) = 2 + 1" "(4::nat) = 3 + 1"
    "1 < length STEP_SEQUENCE" "2 < length STEP_SEQUENCE" "3 < length STEP_SEQUENCE"
    "4 < length STEP_SEQUENCE"
    by (simp_all add: length_STEP_SEQUENCE)
  from stage_first [OF assms(1)] obtain t0 where
    p0: "playing s0 r 0 t0" "due t0 = clock s0 + 1200"
    and tr0: "trace s0 = trace s @ [(r, SetStepIndex 0), (r, SetProgress 15)]"
    unfolding s0_def r_def by (auto simp: durations step_progress_eq)
  from stage_next [OF p0 n(1) n(5)] obtain t1 where
    p1: "playing s1 r 1 t1" "due t1 = clock s1 + 1500"
    and tr1: "trace s1 = trace s0 @ [(r, SetStepIndex 1), (r, SetProgress 30)]"
    unfolding s1_def by (auto simp: durations step_progress_eq)
  from stage_next [OF p1 n(2) n(6)] obtain t2 where
    p2: "playing s2 r 2 t2" "due t2 = clock s2 + 1400"
    and tr2: "trace s2 = trace s1 @ [(r, SetStepIndex 2), (r, SetProgress 45)]"
    unfolding s2_def by (auto simp: durations step_progress_eq)
  from stage_next [OF p2 n(3) n(7)] obtain t3 where
    p3: "playing s3 r 3 t3" "due t3 = clock s3 + 1100"
    and tr3: "trace s3 = trace s2 @ [(r, SetStepIndex 3), (r, SetProgress 60)]"
    unfolding s3_def by (auto simp: durations step_progress_eq)
  from stage_next [OF p3 n(4) n(8)] obtain t4 where
    p4: "playing s4 r 4 t4" "due t4 = clock s4 + 1300"
    and tr4: "trace s4 = trace s3 @ [(r, SetStepIndex 4), (r, SetProgress 75)]"
    unfolding s4_def by (auto simp: durations step_progress_eq)
  have "4 + 1 = length STEP_SEQUENCE"
    by (simp add: length_STEP_SEQUENCE)
  note e = elapse_finish [OF p4 this, folded s']
  show "phase s' = complete" "previewMode s' = dark" "progress s' = 100"
    "stepIndex s' = 4" "scriptIndex s' = 2" "timers s' = []" "cleanup s' = None"
    using p4(1) by (simp_all add: e playing_def)
  show "trace s' = trace s @ map (Pair (length (runs s)))
          [SetStepIndex 0, SetProgress 15, SetStepIndex 1, SetProgress 30,
           SetStepIndex 2, SetProgress 45, SetStepIndex 3, SetProgress 60,
           SetStepIndex 4, SetProgress 75, SetProgress 100, OnComplete]"
    by (simp add: e tr4 tr3 tr2 tr1 tr0 r_def)
qed


lemma playing_fields:
  assumes "playing s r k t"
  shows "phase s = running" and "stepIndex s = int k" and "progress s = step_progress k"
    and "cleanup s = Some r" and "timers s = [t]" and "k < length STEP_SEQUENCE"
  using assms by (simp_all add: playing_def)

lemma after_start:
  assumes "page_inv s"
  shows "phase (react StartUnlock s) = running" and "stepIndex (react StartUnlock s) = 0"
    and "progress (react StartUnlock s) = 15" and "cleanup (react StartUnlock s) = Some (length (runs s))"
  using stage_first(1) [OF assms] by (auto simp: playing_def step_progress_eq)

lemma after_1200:
  assumes "page_inv s"
  defines "s' \<equiv> elapse 1200 (react StartUnlock s)"
  shows "phase s' = running" and "stepIndex s' = 1" and "progress s' = 30"
    and "scriptIndex s' = 1" and "previewMode s' = light"
proof -
  from stage_first [OF assms(1)] obtain t0 where
    p0: "playing (react StartUnlock s) (length (runs s)) 0 t0"
      "due t0 = clock (react StartUnlock s) + 1200"
    and f0: "previewMode (react StartUnlock s) = light"
    by (auto simp: durations)
  have n: "(1::nat) = 0 + 1" "1 < length STEP_SEQUENCE"
    by (simp_all add: length_STEP_SEQUENCE)
  from stage_next [OF p0 n] obtain t1 where
    p1: "playing s' (length (runs s)) 1 t1"
    and f1: "scriptIndex s' = 1" "previewMode s' = light"
    unfolding s'_def by (auto simp: length_DEMO_SCRIPT f0)
  from playing_fields [OF p1] f1
  show "phase s' = running" "stepIndex s' = 1" "progress s' = 30"
    "scriptIndex s' = 1" "previewMode s' = light"
    by (simp_all add: step_progress_eq)
qed

lemma total_duration: "sum_list (map duration STEP_SEQUENCE) = 6500"
  by (simp add: STEP_SEQUENCE_def)

lemma completions_append:
  "trace s' = trace s @ new \<Longrightarrow>
   completions s' = completions s + length (filter (\<lambda>e. snd e = OnComplete) new)"
  by (simp add: completions_def)

subsection \<open>The position of a run at a given time\<close>

lemma clock_settle: "clock (settle s) = clock s"
proof (induction s rule: settle.induct)
  case (1 s)
  have "clock (commit s) = clock s"
    by (simp add: commit_def Let_def run_cleanup_def sequence_cleanup_def sequence_effect_def
        executeSequence_from_def setTimeout_resolve_def handleSequenceComplete_def
        complete_effect_def narration_effect_def split: option.splits)
  with 1 show ?case
    by (subst settle.simps) simp
qed

lemma clock_resume: "clock (resume r s) = clock s"
  by (simp add: resume_def executeSequence_from_def Let_def setTimeout_resolve_def
      handleSequenceComplete_def)

lemma clock_fire: "clock (fire t s) = clock s"
  by (simp add: fire_def clock_settle clock_resume)

lemma clock_fold_fire: "clock (fold fire ts s) = clock s"
  by (induction ts arbitrary: s) (simp_all add: clock_fire)

lemma clock_tick: "clock (tick s) = clock s + 1"
  by (simp add: tick_def Let_def clock_fold_fire)

lemma clock_elapse: "clock (elapse n s) = clock s + n"
  by (induction n arbitrary: s) (simp_all add: clock_tick)

lemma step_start_0: "step_start 0 = 0"
  by (simp add: step_start_def)

lemma step_start_Suc:
  "k < length STEP_SEQUENCE \<Longrightarrow>
   step_start (Suc k) = step_start k + duration (STEP_SEQUENCE ! k)"
  by (simp add: step_start_def take_Suc_conv_app_nth)

lemma step_starts:
  "step_start 1 = 1200" "step_start 2 = 2700" "step_start 3 = 4100"
  "step_start 4 = 5200" "step_start 5 = 6500"
  "step_start (Suc 0) = 1200" "step_start (Suc (Suc 0)) = 2700"
  by (simp_all add: step_start_def STEP_SEQUENCE_def)

lemma during_run:
  assumes "page_inv s"
  shows "k < length STEP_SEQUENCE \<Longrightarrow> step_start k \<le> n \<Longrightarrow> n < step_start (Suc k) \<Longrightarrow>
    (\<exists>t. playing (elapse n (react StartUnlock s)) (length (runs s)) k t \<and>
         due t = clock s + step_start (Suc k)) \<and>
    scriptIndex (elapse n (react StartUnlock s)) = int (min k (length DEMO_SCRIPT - 1)) \<and>
    previewMode (elapse n (react StartUnlock s)) = light \<and>
    runToken (elapse n (react StartUnlock s)) = runToken s + 1 \<and>
    length (runs (elapse n (react StartUnlock s))) = length (runs s) + 1"
proof (induction k arbitrary: n)
  case 0
  define s0 where "s0 = react StartUnlock s"
  from stage_first [OF assms] obtain t where
    p: "playing s0 (length (runs s)) 0 t" and d: "due t = clock s + step_start (Suc 0)"
    and f: "scriptIndex s0 = 0" "previewMode s0 = light" "runToken s0 = runToken s + 1"
      "length (runs s0) = length (runs s) + 1" "clock s0 = clock s"
    unfolding s0_def by (auto simp: step_start_Suc step_start_0 length_STEP_SEQUENCE)
  from 0 d f have w: "clock s0 + n < due t" by simp
  have e: "elapse n s0 = s0\<lparr>clock := clock s0 + n\<rparr>"
    using p w by (rule elapse_waiting)
  have "playing (elapse n s0) (length (runs s)) 0 t"
    unfolding e using p w by (rule playing_wait)
  with d have "\<exists>t. playing (elapse n s0) (length (runs s)) 0 t \<and>
      due t = clock s + step_start (Suc 0)"
    by blast
  then show ?case
    unfolding s0_def [symmetric] by (simp add: e f)
next
  case (Suc k)
  define s0 where "s0 = react StartUnlock s"
  define r where "r = length (runs s)"
  define m where "m = step_start (Suc k) - 1"
  from Suc.prems have k: "k < length STEP_SEQUENCE" by simp
  have pos: "0 < duration (STEP_SEQUENCE ! k)"
    using k by (rule duration_pos)
  with k have m: "step_start k \<le> m" "m < step_start (Suc k)" "Suc m = step_start (Suc k)"
    by (simp_all add: m_def step_start_Suc)
  from Suc.IH [OF k m(1,2)] obtain t where
    p: "playing (elapse m s0) r k t" and d: "due t = clock s + step_start (Suc k)"
    and f: "scriptIndex (elapse m s0) = int (min k (length DEMO_SCRIPT - 1))"
      "previewMode (elapse m s0) = light" "runToken (elapse m s0) = runToken s + 1"
      "length (runs (elapse m s0)) = length (runs s) + 1"
    unfolding s0_def r_def by blast
  have c0: "clock s0 = clock s"
    unfolding s0_def using assms by (rule stage_first)
  have d1: "due t = clock (elapse m s0) + 1"
    using d m(3) by (simp add: clock_elapse c0)
  define s1 where "s1 = elapse 1 (elapse m s0)"
  have s1: "s1 = elapse (Suc m) s0"
    unfolding s1_def using elapse_add [of m 1 s0] by simp
  from stage_next [OF p d1 _ Suc.prems(1)] obtain t' where
    p': "playing s1 r (Suc k) t'"
    and d': "due t' = clock s1 + duration (STEP_SEQUENCE ! Suc k)"
    and f': "previewMode s1 = light" "runToken s1 = runToken s + 1"
      "scriptIndex s1 = (if Suc k < length DEMO_SCRIPT then int (Suc k)
                         else int (min k (length DEMO_SCRIPT - 1)))"
      "length (runs s1) = length (runs s) + 1"
    unfolding s1_def [symmetric] by (auto simp: f)
  have c1: "clock s1 = clock s + step_start (Suc k)"
    unfolding s1 by (simp add: clock_elapse c0 m(3))
  define j where "j = n - Suc m"
  from Suc.prems m(3) have n: "n = Suc m + j"
    by (simp add: j_def)
  have w: "clock s1 + j < due t'"
    using Suc.prems(3) by (simp add: d' c1 n m(3) step_start_Suc [OF Suc.prems(1)])
  have e: "elapse n s0 = s1\<lparr>clock := clock s1 + j\<rparr>"
    unfolding n elapse_add s1 [symmetric] using p' w by (rule elapse_waiting)
  have "playing (elapse n s0) r (Suc k) t'"
    unfolding e using p' w by (rule playing_wait)
  moreover have "due t' = clock s + step_start (Suc (Suc k))"
    by (simp add: d' c1 step_start_Suc [OF Suc.prems(1)])
  ultimately have "\<exists>t. playing (elapse n s0) r (Suc k) t \<and>
      due t = clock s + step_start (Suc (Suc k))"
    by blast
  moreover have "scriptIndex s1 = int (min (Suc k) (length DEMO_SCRIPT - 1))"
    by (simp add: f' length_DEMO_SCRIPT min_def)
  ultimately show ?case
    unfolding s0_def [symmetric] by (simp add: e f' r_def)
qed


lemma during_run_fields:
  assumes "page_inv s" and "k < length STEP_SEQUENCE" and "step_start k \<le> n"
    and "n < step_start (Suc k)"
  defines "s' \<equiv> elapse n (react StartUnlock s)"
  shows "phase s' = running" and "stepIndex s' = int k" and "progress s' = step_progress k"
    and "cleanup s' = Some (length (runs s))" and "\<not> cancelled (runs s' ! length (runs s))"
    and "scriptIndex s' = int (min k (length DEMO_SCRIPT - 1))"
    and "previewMode s' = light" and "runToken s' = runToken s + 1"
    and "length (runs s') = length (runs s) + 1"
  using during_run [OF assms(1-4)] unfolding s'_def by (auto simp: playing_def)

lemma mid_run:
  defines "s \<equiv> exec [StartUnlock, Elapse 2000] mount"
  shows "phase s = running" and "stepIndex s = 1" and "progress s = 30"
    and "scriptIndex s = 1" and "length (runs s) = 1" and "cleanup s = Some 0"
    and "\<not> cancelled (runs s ! 0)" and "runToken s = 1"
proof -
  have s: "s = elapse 2000 (react StartUnlock mount)"
    by (simp add: s_def exec_Cons exec_Nil react.simps)
  have m: "length (runs mount) = 0" "runToken mount = 0"
    by (simp_all add: mount_eq initial_def)
  have k: "1 < length STEP_SEQUENCE" "step_start 1 \<le> 2000" "2000 < step_start (Suc 1)"
    by (simp_all add: length_STEP_SEQUENCE step_starts)
  note f = during_run_fields [OF page_inv_mount k, folded s]
  from f show "phase s = running" "stepIndex s = 1" "progress s = 30"
    "scriptIndex s = 1" "length (runs s) = 1" "cleanup s = Some 0"
    "\<not> cancelled (runs s ! 0)" "runToken s = 1"
    by (simp_all add: m step_progress_eq length_DEMO_SCRIPT)
qed

lemma completed_run:
  defines "s \<equiv> exec [StartUnlock, Elapse 6500] mount"
  shows "phase s = complete" and "stepIndex s = 4" and "progress s = 100"
    and "scriptIndex s = 2" and "previewMode s = dark" and "runToken s = 1"
proof -
  have s: "s = elapse 6500 (react StartUnlock mount)"
    by (simp add: s_def exec_Cons exec_Nil react.simps)
  note f = run_to_completion [OF page_inv_mount, folded s]
  from f show "phase s = complete" "stepIndex s = 4" "progress s = 100"
    "scriptIndex s = 2" "previewMode s = dark"
    by simp_all
  show "runToken s = 1"
    by (simp add: s_def runToken_exec mount_eq initial_def)
qed

lemma Math_round_first: "Math_round (1 / of_nat (length STEP_SEQUENCE + 1) * 90) = 15"
  using step_progress_eq [of 0] by (simp add: step_progress_def)

subsection \<open>After a reset\<close>

lemma after_reset:
  assumes "page_inv s"
  defines "s' \<equiv> react ResetUnlock s"
  shows "phase s' = idle" and "previewMode s' = light" and "scriptIndex s' = 0"
    and "stepIndex s' = - 1" and "progress s' = 0" and "runToken s' = runToken s"
    and "timers s' = []" and "cleanup s' = None"
    and "length (runs s') = length (runs s)"
    and "\<forall>r<length (runs s'). cancelled (runs s' ! r)"
    and "trace s' = trace s"
  unfolding s'_def react_ResetUnlock_eq [OF assms(1)]
  using run_cleanup_inv(3) [OF assms(1)] by simp_all

lemma fire_not_pending: "timers s = [] \<Longrightarrow> fire t s = s"
  by (simp add: fire_def)

lemma resume_cancelled:
  assumes "\<forall>r<length (runs s). cancelled (runs s ! r)"
  shows "resume r s = s\<lparr>runs := runs (resume r s)\<rparr>"
    and "\<forall>q<length (runs (resume r s)). cancelled (runs (resume r s) ! q)"
proof -
  have e: "resume r s =
      (if r < length (runs s)
       then s\<lparr>runs := (runs s)[r := (runs s ! r)\<lparr>loop_i := loop_i (runs s ! r) + 1\<rparr>]\<rparr>
       else s)"
    using assms by (simp add: resume_def executeSequence_from_def Let_def)
  show "resume r s = s\<lparr>runs := runs (resume r s)\<rparr>"
    unfolding e by simp
  show "\<forall>q<length (runs (resume r s)). cancelled (runs (resume r s) ! q)"
    unfolding e using assms by (simp add: nth_list_update)
qed

subsection \<open>Runs are never revived\<close>

lemma extends_refl: "extends s s"
  by (simp add: extends_def)

lemma extends_trans:
  assumes "extends a b" and "extends b c"
  shows "extends a c"
proof -
  from assms(1) obtain n1 where
    l1: "length (runs a) \<le> length (runs b)"
    and c1: "\<forall>r<length (runs a). cancelled (runs a ! r) \<longrightarrow> cancelled (runs b ! r)"
    and t1: "trace b = trace a @ n1"
    and e1: "\<forall>e\<in>set n1. fst e < length (runs a) \<longrightarrow> \<not> cancelled (runs a ! fst e)"
    unfolding extends_def by blast
  from assms(2) obtain n2 where
    l2: "length (runs b) \<le> length (runs c)"
    and c2: "\<forall>r<length (runs b). cancelled (runs b ! r) \<longrightarrow> cancelled (runs c ! r)"
    and t2: "trace c = trace b @ n2"
    and e2: "\<forall>e\<in>set n2. fst e < length (runs b) \<longrightarrow> \<not> cancelled (runs b ! fst e)"
    unfolding extends_def by blast
  have "length (runs a) \<le> length (runs c)"
    using l1 l2 by simp
  moreover have "\<forall>r<length (runs a). cancelled (runs a ! r) \<longrightarrow> cancelled (runs c ! r)"
    using c1 c2 l1 by (meson less_le_trans)
  moreover have "trace c = trace a @ (n1 @ n2)"
    using t1 t2 by simp
  moreover have "\<forall>e\<in>set (n1 @ n2). fst e < length (runs a) \<longrightarrow> \<not> cancelled (runs a ! fst e)"
  proof
    fix e assume "e \<in> set (n1 @ n2)"
    then consider "e \<in> set n1" | "e \<in> set n2" by auto
    then show "fst e < length (runs a) \<longrightarrow> \<not> cancelled (runs a ! fst e)"
    proof cases
      case 1
      with e1 show ?thesis by blast
    next
      case 2
      show ?thesis
      proof
        assume f: "fst e < length (runs a)"
        with l1 have "fst e < length (runs b)" by simp
        with e2 2 have "\<not> cancelled (runs b ! fst e)" by blast
        with c1 f show "\<not> cancelled (runs a ! fst e)" by blast
      qed
    qed
  qed
  ultimately show ?thesis
    unfolding extends_def by blast
qed

lemma extends_same:
  "runs s' = runs s \<Longrightarrow> trace s' = trace s \<Longrightarrow> extends s s'"
  by (simp add: extends_def)

lemma extends_StartUnlock:
  assumes "page_inv s"
  shows "extends s (react StartUnlock s)"
  unfolding react_StartUnlock_eq [OF assms] extends_def
  using run_cleanup_inv(3) [OF assms]
  by (simp add: nth_append)

lemma extends_ResetUnlock:
  assumes "page_inv s"
  shows "extends s (react ResetUnlock s)"
  unfolding react_ResetUnlock_eq [OF assms] extends_def
  using run_cleanup_inv(3) [OF assms]
  by simp

lemma extends_tick:
  assumes "page_inv s"
  shows "extends s (tick s)"
  using assms
proof (cases rule: tick_cases)
  case rest
  then show ?thesis by (simp add: extends_def)
next
  case (wait r k t)
  then show ?thesis by (simp add: extends_def)
next
  case (advance r k t)
  from advance(1) have r: "r < length (runs s)" "\<not> cancelled (runs s ! r)"
    by (simp_all add: playing_def)
  then show ?thesis
    unfolding advance(4) extends_def by (simp add: nth_list_update)
next
  case (finish r k t)
  from finish(1) have r: "r < length (runs s)" "\<not> cancelled (runs s ! r)"
    by (simp_all add: playing_def)
  then show ?thesis
    unfolding finish(4) extends_def by (simp add: nth_list_update)
qed

lemma extends_elapse: "page_inv s \<Longrightarrow> extends s (elapse n s)"
proof (induction n arbitrary: s)
  case 0
  show ?case by (simp add: extends_refl)
next
  case (Suc n)
  have "extends s (tick s)"
    using Suc.prems by (rule extends_tick)
  moreover have "extends (tick s) (elapse n (tick s))"
    using Suc.prems by (intro Suc.IH page_inv_tick)
  ultimately show ?case
    by (simp add: extends_trans)
qed

lemma extends_react:
  assumes "page_inv s"
  shows "extends s (react e s)"
proof (cases e)
  case StartUnlock
  with assms show ?thesis by (simp add: extends_StartUnlock)
next
  case ResetUnlock
  with assms show ?thesis by (simp add: extends_ResetUnlock)
next
  case TogglePreview
  with assms show ?thesis
    by (simp add: react_TogglePreview_eq togglePreview_def extends_same)
next
  case PreviousBeat
  with assms show ?thesis
    by (simp add: react_PreviousBeat_eq previousBeat_def extends_same)
next
  case NextBeat
  with assms show ?thesis
    by (simp add: react_NextBeat_eq nextBeat_def extends_same)
next
  case (Elapse n)
  with assms show ?thesis
    by (simp add: react.simps extends_elapse)
qed

lemma extends_exec: "page_inv s \<Longrightarrow> extends s (exec evs s)"
proof (induction evs rule: rev_induct)
  case Nil
  show ?case by (simp add: exec_Nil extends_refl)
next
  case (snoc e evs)
  have "extends (exec evs s) (react e (exec evs s))"
    using snoc.prems by (intro extends_react page_inv_exec)
  with snoc show ?case
    by (auto simp: exec_snoc intro: extends_trans)
qed


lemma one_active_run:
  assumes "page_inv s"
    and "r < length (runs s)" and "\<not> cancelled (runs s ! r)"
    and "r' < length (runs s)" and "\<not> cancelled (runs s ! r')"
  shows "r = r'"
proof -
  from assms(1) have "\<forall>q<length (runs s). cleanup s \<noteq> Some q \<longrightarrow> cancelled (runs s ! q)"
    by (simp add: page_inv_def)
  with assms(2-5) have "cleanup s = Some r" "cleanup s = Some r'"
    by blast+
  then show ?thesis by simp
qed

lemma timers_of_active_run:
  assumes "page_inv s" and "t \<in> set (timers s)"
  shows "resolves t < length (runs s) \<and> \<not> cancelled (runs s ! resolves t)"
proof (cases "phase s = running")
  case True
  with assms(1) obtain r k u where "playing s r k u"
    by (auto simp: page_inv_def)
  with assms(2) show ?thesis
    by (simp add: playing_def)
next
  case False
  with assms show ?thesis
    by (simp add: page_inv_def resting_def)
qed

lemma resume_of_cancelled:
  assumes "r < length (runs s)" and "cancelled (runs s ! r)"
  shows "resume r s = s\<lparr>runs := runs (resume r s)\<rparr>"
  using assms by (simp add: resume_def executeSequence_from_def Let_def)

lemma old_runs_cancelled:
  assumes "page_inv s" and "r < length (runs s)"
  shows "cancelled (runs (react StartUnlock s) ! r)"
  unfolding react_StartUnlock_eq [OF assms(1)]
  using run_cleanup_inv(3) [OF assms(1)] assms(2)
  by (simp add: nth_append)

subsection \<open>Step index and progress only grow while no run is started or reset\<close>

lemma step_progress_le: "k < length STEP_SEQUENCE \<Longrightarrow> step_progress k \<le> 75"
  by (simp add: step_progress_eq length_STEP_SEQUENCE)

lemma grows_tick:
  assumes "page_inv s"
  shows "stepIndex s \<le> stepIndex (tick s) \<and> progress s \<le> progress (tick s)"
  using assms
proof (cases rule: tick_cases)
  case rest
  then show ?thesis by simp
next
  case (wait r k t)
  then show ?thesis by simp
next
  case (advance r k t)
  from playing_fields(2,3) [OF advance(1)] show ?thesis
    unfolding advance(4) by (simp add: step_progress_eq)
next
  case (finish r k t)
  from playing_fields(2,3,6) [OF finish(1)] step_progress_le [of k] show ?thesis
    unfolding finish(4) by simp
qed

lemma grows_elapse:
  "page_inv s \<Longrightarrow> stepIndex s \<le> stepIndex (elapse n s) \<and> progress s \<le> progress (elapse n s)"
proof (induction n arbitrary: s)
  case 0
  show ?case by simp
next
  case (Suc n)
  from grows_tick [OF Suc.prems] Suc.IH [OF page_inv_tick [OF Suc.prems]]
  show ?case by simp
qed

lemma grows_react:
  assumes "page_inv s" and "e \<noteq> StartUnlock" and "e \<noteq> ResetUnlock"
  shows "stepIndex s \<le> stepIndex (react e s) \<and> progress s \<le> progress (react e s)"
proof (cases e)
  case (Elapse n)
  with assms(1) show ?thesis
    by (simp add: react.simps grows_elapse)
qed (use assms in \<open>simp_all add: react_TogglePreview_eq react_PreviousBeat_eq
    react_NextBeat_eq togglePreview_def previousBeat_def nextBeat_def\<close>)

lemma grows_exec:
  "page_inv s \<Longrightarrow> StartUnlock \<notin> set evs \<Longrightarrow> ResetUnlock \<notin> set evs \<Longrightarrow>
   stepIndex s \<le> stepIndex (exec evs s) \<and> progress s \<le> progress (exec evs s)"
proof (induction evs rule: rev_induct)
  case Nil
  show ?case by (simp add: exec_Nil)
next
  case (snoc e evs)
  from snoc.prems have e: "e \<noteq> StartUnlock" "e \<noteq> ResetUnlock" by auto
  from snoc have "stepIndex s \<le> stepIndex (exec evs s) \<and> progress s \<le> progress (exec evs s)"
    by simp
  moreover have "stepIndex (exec evs s) \<le> stepIndex (react e (exec evs s)) \<and>
      progress (exec evs s) \<le> progress (react e (exec evs s))"
    using snoc.prems(1) e by (intro grows_react page_inv_exec)
  ultimately show ?case
    by (simp add: exec_snoc)
qed

lemma progress_bounds:
  assumes "page_inv s"
  shows "phase s \<noteq> complete \<Longrightarrow> progress s \<le> 90" and "progress s = 100 \<Longrightarrow> phase s = complete"
proof -
  have r: "progress s \<le> 75" if "phase s = running"
    using assms that step_progress_le by (auto simp: page_inv_def playing_def)
  have d: "progress s = 0" if "phase s = idle"
    using assms that by (simp add: page_inv_def resting_def)
  show "progress s \<le> 90" if "phase s \<noteq> complete"
    using that r d by (cases "phase s") simp_all
  show "phase s = complete" if "progress s = 100"
    using that r d by (cases "phase s") simp_all
qed

subsection \<open>Entering the phase \<open>complete\<close>\<close>

lemma enters_complete_tick:
  assumes "page_inv s" and "phase s \<noteq> complete" and "phase (tick s) = complete"
  shows "previewMode (tick s) = dark \<and> scriptIndex (tick s) = 2"
  using assms(1)
proof (cases rule: tick_cases)
  case rest
  with assms(2,3) show ?thesis by simp
next
  case (wait r k t)
  with assms(2,3) show ?thesis by simp
next
  case (advance r k t)
  from assms(3) playing_fields(1) [OF advance(1)] show ?thesis
    unfolding advance(4) by simp
next
  case (finish r k t)
  show ?thesis
    unfolding finish(4) by simp
qed

lemma complete_stays:
  assumes "page_inv s" and "phase s = complete"
  shows "elapse n s = s\<lparr>clock := clock s + n\<rparr>"
  using assms by (intro elapse_no_timer) (simp add: page_inv_def resting_def)

lemma enters_complete_elapse:
  "page_inv s \<Longrightarrow> phase s \<noteq> complete \<Longrightarrow> phase (elapse n s) = complete \<Longrightarrow>
   previewMode (elapse n s) = dark \<and> scriptIndex (elapse n s) = 2"
proof (induction n arbitrary: s)
  case 0
  then show ?case by simp
next
  case (Suc n)
  note i = page_inv_tick [OF Suc.prems(1)]
  show ?case
  proof (cases "phase (tick s) = complete")
    case True
    from enters_complete_tick [OF Suc.prems(1,2) True] complete_stays [OF i True, of n]
    show ?thesis by simp
  next
    case False
    from Suc.IH [OF i False] Suc.prems(3) show ?thesis by simp
  qed
qed

lemma enters_complete_react:
  assumes "page_inv s" and "phase s \<noteq> complete" and "phase (react e s) = complete"
  shows "previewMode (react e s) = dark \<and> scriptIndex (react e s) = 2"
proof (cases e)
  case StartUnlock
  with assms(3) after_start(1) [OF assms(1)] show ?thesis by simp
next
  case ResetUnlock
  with assms(3) after_reset(1) [OF assms(1)] show ?thesis by simp
next
  case TogglePreview
  with assms show ?thesis
    by (simp add: react_TogglePreview_eq togglePreview_def)
next
  case PreviousBeat
  with assms show ?thesis
    by (simp add: react_PreviousBeat_eq previousBeat_def)
next
  case NextBeat
  with assms show ?thesis
    by (simp add: react_NextBeat_eq nextBeat_def)
next
  case (Elapse n)
  with assms show ?thesis
    by (simp add: react.simps enters_complete_elapse)
qed

lemma toggle_fields:
  assumes "page_inv s"
  shows "phase (react TogglePreview s) = phase s"
    and "previewMode (react TogglePreview s) = (if previewMode s = light then dark else light)"
    and "stepIndex (react TogglePreview s) = stepIndex s"
    and "progress (react TogglePreview s) = progress s"
  using assms by (simp_all add: react_TogglePreview_eq togglePreview_def)

subsection \<open>The narration beat at a step advance\<close>

lemma advance_tick:
  assumes "page_inv s" and "phase (tick s) = running" and "stepIndex (tick s) \<noteq> stepIndex s"
  shows "stepIndex (tick s) = stepIndex s + 1 \<and>
    scriptIndex (tick s) =
      (if stepIndex (tick s) < int (length DEMO_SCRIPT) then stepIndex (tick s)
       else scriptIndex s)"
  using assms(1)
proof (cases rule: tick_cases)
  case rest
  with assms(3) show ?thesis by simp
next
  case (wait r k t)
  with assms(3) show ?thesis by simp
next
  case (advance r k t)
  from playing_fields(2) [OF advance(1)] show ?thesis
    unfolding advance(4) by simp
next
  case (finish r k t)
  from assms(2) show ?thesis
    unfolding finish(4) by simp
qed

lemma beat_pressed_mid_run:
  defines "b \<equiv> react NextBeat (elapse 3000 (react StartUnlock mount))"
  shows "phase (elapse 1099 b) = running" and "stepIndex (elapse 1099 b) = 2"
    and "phase (elapse 1100 b) = running" and "stepIndex (elapse 1100 b) = 3"
    and "scriptIndex (elapse 1100 b) = 0"
proof -
  define a where "a = elapse 3000 (react StartUnlock mount)"
  have k: "2 < length STEP_SEQUENCE" "step_start 2 \<le> 3000" "3000 < step_start (Suc 2)"
    by (simp_all add: length_STEP_SEQUENCE step_starts)
  from during_run [OF page_inv_mount k, folded a_def] obtain t where
    pa: "playing a 0 2 t" and da: "due t = 4100" and sa: "scriptIndex a = 2"
    by (auto simp: mount_eq initial_def step_starts length_DEMO_SCRIPT)
  have ca: "clock a = 3000"
    unfolding a_def using stage_first(6) [OF page_inv_mount]
    by (simp add: clock_elapse mount_eq initial_def)
  have ia: "page_inv a"
    unfolding a_def by (intro page_inv_elapse page_inv_StartUnlock page_inv_mount)
  have b: "b = a\<lparr>scriptIndex := 0\<rparr>"
    unfolding b_def a_def [symmetric]
    by (simp add: react_NextBeat_eq [OF ia] nextBeat_def sa js_rem_def length_DEMO_SCRIPT)
  have pb: "playing b 0 2 t"
    unfolding b using pa by (rule playing_frame)
  have db: "due t = clock b + 1100"
    by (simp add: b da ca)
  have "elapse 1099 b = b\<lparr>clock := clock b + 1099\<rparr>"
    using pb by (rule elapse_waiting) (simp add: db)
  with playing_fields(1,2) [OF pb]
  show "phase (elapse 1099 b) = running" "stepIndex (elapse 1099 b) = 2"
    by simp_all
  have n: "(3::nat) = 2 + 1" "3 < length STEP_SEQUENCE"
    by (simp_all add: length_STEP_SEQUENCE)
  from stage_next [OF pb db n] obtain t' where
    pd: "playing (elapse 1100 b) 0 3 t'"
    and sd: "scriptIndex (elapse 1100 b) = scriptIndex b"
    by (auto simp: length_DEMO_SCRIPT)
  from playing_fields(1,2) [OF pd] sd
  show "phase (elapse 1100 b) = running" "stepIndex (elapse 1100 b) = 3"
    "scriptIndex (elapse 1100 b) = 0"
    by (simp_all add: b)
qed

lemma completed_status:
  assumes "page_inv s" and "phase s = complete"
  shows "stepIndex s = int (length STEP_SEQUENCE) - 1"
    and "status s (int (length STEP_SEQUENCE) - 1) = timeline_active"
    and "index < int (length STEP_SEQUENCE) - 1 \<Longrightarrow> status s index = timeline_complete"
proof -
  from assms show e: "stepIndex s = int (length STEP_SEQUENCE) - 1"
    by (simp add: page_inv_def resting_def)
  then show "status s (int (length STEP_SEQUENCE) - 1) = timeline_active"
    by (simp add: status_def)
  from e show "index < int (length STEP_SEQUENCE) - 1 \<Longrightarrow> status s index = timeline_complete"
    by (simp add: status_def)
qed

section \<open>The claims\<close>

text \<open>
  C1. From any reachable state, starting a run and letting the sum of the step durations
  (6500 ms) elapse leaves the phase \<open>complete\<close>, the preview \<open>dark\<close>, the progress at
  100, the step index at the last step and the narration at its last beat. During that
  time the sequencer made exactly the twelve calls listed, all by the new run, the
  completion callback among them once and last.
\<close>

theorem run_reaches_complete:
  "let s = exec evs mount;
       s' = elapse (sum_list (map duration STEP_SEQUENCE)) (react StartUnlock s)
   in phase s' = complete \<and> previewMode s' = dark \<and> progress s' = 100 \<and>
      stepIndex s' = int (length STEP_SEQUENCE) - 1 \<and>
      scriptIndex s' = int (length DEMO_SCRIPT) - 1 \<and>
      trace s' = trace s @ map (Pair (length (runs s)))
        [SetStepIndex 0, SetProgress 15, SetStepIndex 1, SetProgress 30,
         SetStepIndex 2, SetProgress 45, SetStepIndex 3, SetProgress 60,
         SetStepIndex 4, SetProgress 75, SetProgress 100, OnComplete] \<and>
      completions s' = completions s + 1"
proof -
  note r = run_to_completion [OF page_inv_reachable [of evs]]
  have "completions (elapse 6500 (react StartUnlock (exec evs mount)))
      = completions (exec evs mount) + 1"
    by (simp add: completions_append [OF r(6)])
  with r show ?thesis
    by (simp add: Let_def total_duration length_STEP_SEQUENCE length_DEMO_SCRIPT)
qed

theorem run_reaches_complete_witness:
  "phase (elapse 6500 (react StartUnlock mount)) = complete \<and>
   previewMode (elapse 6500 (react StartUnlock mount)) = dark \<and>
   progress (elapse 6500 (react StartUnlock mount)) = 100 \<and>
   stepIndex (elapse 6500 (react StartUnlock mount)) = 4 \<and>
   scriptIndex (elapse 6500 (react StartUnlock mount)) = 2 \<and>
   completions (elapse 6500 (react StartUnlock mount)) = 1"
  using run_reaches_complete [of "[]"]
  by (simp add: Let_def total_duration length_STEP_SEQUENCE length_DEMO_SCRIPT exec_Nil
      completions_def mount_eq initial_def)

text \<open>
  C2. From any reachable state, in any phase and so also while a run is in flight,
  \<open>resetUnlock\<close> leaves the phase \<open>idle\<close>, the preview \<open>light\<close>, the narration at beat
  0, the step index at -1 and the progress at 0. Afterwards no timer is pending and every
  run is cancelled: time that passes changes nothing but the clock, a timer of a former
  run that fired would find nothing to do, and the continuation of a former run, were it
  resumed, would change nothing but its own loop variable.
\<close>

theorem resetUnlock_cancels_run:
  "let s = exec evs mount; s' = react ResetUnlock s
   in phase s' = idle \<and> previewMode s' = light \<and> scriptIndex s' = 0 \<and>
      stepIndex s' = - 1 \<and> progress s' = 0 \<and>
      timers s' = [] \<and> cleanup s' = None \<and>
      (\<forall>r<length (runs s'). cancelled (runs s' ! r)) \<and>
      (\<forall>n. elapse n s' = s'\<lparr>clock := clock s' + n\<rparr>) \<and>
      (\<forall>t. fire t s' = s') \<and>
      (\<forall>r. resume r s' = s'\<lparr>runs := runs (resume r s')\<rparr>)"
proof -
  note f = after_reset [OF page_inv_reachable [of evs]]
  from f(10) have "\<forall>r. resume r (react ResetUnlock (exec evs mount)) =
      (react ResetUnlock (exec evs mount))
        \<lparr>runs := runs (resume r (react ResetUnlock (exec evs mount)))\<rparr>"
    by (intro allI resume_cancelled(1)) blast
  with f show ?thesis
    unfolding Let_def by (simp add: elapse_no_timer fire_not_pending)
qed

theorem resetUnlock_cancels_run_witness:
  "phase (exec [StartUnlock, Elapse 2000] mount) = running \<and>
   phase (react ResetUnlock (exec [StartUnlock, Elapse 2000] mount)) = idle \<and>
   previewMode (react ResetUnlock (exec [StartUnlock, Elapse 2000] mount)) = light \<and>
   scriptIndex (react ResetUnlock (exec [StartUnlock, Elapse 2000] mount)) = 0 \<and>
   stepIndex (react ResetUnlock (exec [StartUnlock, Elapse 2000] mount)) = - 1 \<and>
   progress (react ResetUnlock (exec [StartUnlock, Elapse 2000] mount)) = 0 \<and>
   0 < length (runs (react ResetUnlock (exec [StartUnlock, Elapse 2000] mount))) \<and>
   cancelled (runs (react ResetUnlock (exec [StartUnlock, Elapse 2000] mount)) ! 0) \<and>
   stepIndex (elapse 5000 (react ResetUnlock (exec [StartUnlock, Elapse 2000] mount))) = - 1 \<and>
   progress (elapse 5000 (react ResetUnlock (exec [StartUnlock, Elapse 2000] mount))) = 0 \<and>
   phase (elapse 5000 (react ResetUnlock (exec [StartUnlock, Elapse 2000] mount))) = idle"
proof -
  define s where "s = exec [StartUnlock, Elapse 2000] mount"
  define s' where "s' = react ResetUnlock s"
  note w = resetUnlock_cancels_run [of "[StartUnlock, Elapse 2000]", unfolded Let_def,
      folded s_def, folded s'_def]
  have i: "page_inv s"
    unfolding s_def by (rule page_inv_reachable)
  have l: "0 < length (runs s')"
    unfolding s'_def using after_reset(9) [OF i] mid_run(5) [folded s_def] by simp
  with w have c: "cancelled (runs s' ! 0)"
    by blast
  from w have "elapse 5000 s' = s'\<lparr>clock := clock s' + 5000\<rparr>"
    by blast
  with w l c mid_run(1) [folded s_def] show ?thesis
    unfolding s_def [symmetric] s'_def [symmetric] by simp
qed

text \<open>
  C3. Let a run be started in any reachable state \<open>s\<close> (in particular while another run
  is in flight) and let any events follow. Then every run that existed in \<open>s\<close> is
  cancelled for good, no pending timer belongs to such a run, every call the sequencer
  makes after the start comes from a run created at or after it, and the continuation of
  an old run, were it resumed, would change nothing but its own loop variable. In every
  reachable state at most one run is not cancelled.
\<close>

theorem new_run_invalidates_old:
  "let s = exec evs mount; s1 = react StartUnlock s; s2 = exec evs' s1
   in (\<forall>r<length (runs s). cancelled (runs s2 ! r)) \<and>
      (\<forall>t\<in>set (timers s2). length (runs s) \<le> resolves t) \<and>
      (\<exists>new. trace s2 = trace s1 @ new \<and> (\<forall>e\<in>set new. length (runs s) \<le> fst e)) \<and>
      (\<forall>r<length (runs s). resume r s2 = s2\<lparr>runs := runs (resume r s2)\<rparr>) \<and>
      (\<forall>r r'. r < length (runs s2) \<and> \<not> cancelled (runs s2 ! r) \<and>
               r' < length (runs s2) \<and> \<not> cancelled (runs s2 ! r') \<longrightarrow> r = r') \<and>
      (\<forall>r r'. r < length (runs s) \<and> \<not> cancelled (runs s ! r) \<and>
               r' < length (runs s) \<and> \<not> cancelled (runs s ! r') \<longrightarrow> r = r')"
proof -
  define s where "s = exec evs mount"
  define s1 where "s1 = react StartUnlock s"
  define s2 where "s2 = exec evs' s1"
  have i: "page_inv s"
    unfolding s_def by (rule page_inv_reachable)
  then have i1: "page_inv s1"
    unfolding s1_def by (rule page_inv_StartUnlock)
  then have i2: "page_inv s2"
    unfolding s2_def by (rule page_inv_exec)
  have x: "extends s1 s2"
    unfolding s2_def using i1 by (rule extends_exec)
  have l: "length (runs s) < length (runs s1)"
    unfolding s1_def using stage_first(5) [OF i] by simp
  have o1: "cancelled (runs s1 ! r)" if "r < length (runs s)" for r
    unfolding s1_def using i that by (rule old_runs_cancelled)
  have l2: "length (runs s1) \<le> length (runs s2)"
    using x by (simp add: extends_def)
  have o2: "cancelled (runs s2 ! r)" if "r < length (runs s)" for r
    using x o1 [OF that] that l by (simp add: extends_def)
  have a: "\<forall>r<length (runs s). cancelled (runs s2 ! r)"
    using o2 by blast
  have b: "\<forall>t\<in>set (timers s2). length (runs s) \<le> resolves t"
  proof
    fix t assume "t \<in> set (timers s2)"
    with i2 have "\<not> cancelled (runs s2 ! resolves t)"
      by (simp add: timers_of_active_run)
    with o2 show "length (runs s) \<le> resolves t"
      by (meson not_le)
  qed
  from x obtain new where n: "trace s2 = trace s1 @ new"
    and e: "\<forall>e\<in>set new. fst e < length (runs s1) \<longrightarrow> \<not> cancelled (runs s1 ! fst e)"
    unfolding extends_def by blast
  have "\<forall>e\<in>set new. length (runs s) \<le> fst e"
  proof
    fix e' assume "e' \<in> set new"
    with e have "fst e' < length (runs s1) \<longrightarrow> \<not> cancelled (runs s1 ! fst e')"
      by blast
    with o1 l show "length (runs s) \<le> fst e'"
      by (meson less_trans not_le)
  qed
  with n have c: "\<exists>new. trace s2 = trace s1 @ new \<and> (\<forall>e\<in>set new. length (runs s) \<le> fst e)"
    by blast
  have d: "\<forall>r<length (runs s). resume r s2 = s2\<lparr>runs := runs (resume r s2)\<rparr>"
  proof (intro allI impI)
    fix r assume r: "r < length (runs s)"
    with l l2 have "r < length (runs s2)" by simp
    then show "resume r s2 = s2\<lparr>runs := runs (resume r s2)\<rparr>"
      using o2 [OF r] by (rule resume_of_cancelled)
  qed
  have f: "\<forall>r r'. r < length (runs u) \<and> \<not> cancelled (runs u ! r) \<and>
               r' < length (runs u) \<and> \<not> cancelled (runs u ! r') \<longrightarrow> r = r'"
    if "page_inv u" for u
    using that by (blast intro: one_active_run)
  from a b c d f [OF i2] f [OF i] show ?thesis
    unfolding Let_def s_def [symmetric] s1_def [symmetric] s2_def [symmetric] by blast
qed

theorem new_run_invalidates_old_witness:
  "phase (exec [StartUnlock, Elapse 2000] mount) = running \<and>
   length (runs (exec [StartUnlock, Elapse 2000] mount)) = 1 \<and>
   \<not> cancelled (runs (exec [StartUnlock, Elapse 2000] mount) ! 0) \<and>
   cancelled (runs (react StartUnlock (exec [StartUnlock, Elapse 2000] mount)) ! 0) \<and>
   cancelled (runs (exec [Elapse 6500]
     (react StartUnlock (exec [StartUnlock, Elapse 2000] mount))) ! 0) \<and>
   timers (exec [Elapse 6500]
     (react StartUnlock (exec [StartUnlock, Elapse 2000] mount))) = [] \<and>
   phase (exec [Elapse 6500]
     (react StartUnlock (exec [StartUnlock, Elapse 2000] mount))) = complete \<and>
   resume 0 (exec [Elapse 6500] (react StartUnlock (exec [StartUnlock, Elapse 2000] mount))) =
     (exec [Elapse 6500] (react StartUnlock (exec [StartUnlock, Elapse 2000] mount)))
     \<lparr>runs := runs (resume 0 (exec [Elapse 6500]
        (react StartUnlock (exec [StartUnlock, Elapse 2000] mount))))\<rparr>"
proof -
  define s where "s = exec [StartUnlock, Elapse 2000] mount"
  define s2 where "s2 = exec [Elapse 6500] (react StartUnlock s)"
  note m = mid_run [folded s_def]
  have i: "page_inv s"
    unfolding s_def by (rule page_inv_reachable)
  have e: "s2 = elapse 6500 (react StartUnlock s)"
    by (simp add: s2_def exec_Cons exec_Nil react.simps)
  note c = run_to_completion(1,7) [OF i, folded e]
  note w = new_run_invalidates_old [of "[StartUnlock, Elapse 2000]" "[Elapse 6500]",
      unfolded Let_def, folded s_def, folded s2_def]
  note w0 = new_run_invalidates_old [of "[StartUnlock, Elapse 2000]" "[]",
      unfolded Let_def exec_Nil, folded s_def]
  from m have z: "0 < length (runs s)" by simp
  from w z have "cancelled (runs s2 ! 0)" by blast
  moreover from w0 z have "cancelled (runs (react StartUnlock s) ! 0)" by blast
  moreover from w z have "resume 0 s2 = s2\<lparr>runs := runs (resume 0 s2)\<rparr>" by blast
  ultimately show ?thesis
    using m c unfolding s_def [symmetric] s2_def [symmetric] by simp
qed

text \<open>
  C4. In every reachable state of the phase \<open>running\<close> the step index \<open>i\<close> lies in
  0..N-1 and the progress is round((i + 1) / (N + 1) * 90); the progress is 100 only in
  the phase \<open>complete\<close>. At any time \<open>n\<close> of a run that falls within step \<open>k\<close>, the step
  index is \<open>k\<close> and the progress is that of step \<open>k\<close>. For the catalog of five steps:
  just after the start the step index is 0 and the progress 15, and 1200 ms later they
  are 1 and 30.
\<close>

theorem progress_during_run:
  "let s = exec evs mount
   in (phase s = running \<longrightarrow>
         0 \<le> stepIndex s \<and> stepIndex s < int (length STEP_SEQUENCE) \<and>
         progress s = step_progress (nat (stepIndex s))) \<and>
      (progress s = 100 \<longrightarrow> phase s = complete) \<and>
      (\<forall>k n. k < length STEP_SEQUENCE \<and> step_start k \<le> n \<and> n < step_start (Suc k) \<longrightarrow>
         phase (elapse n (react StartUnlock s)) = running \<and>
         stepIndex (elapse n (react StartUnlock s)) = int k \<and>
         progress (elapse n (react StartUnlock s)) = step_progress k) \<and>
      stepIndex (react StartUnlock s) = 0 \<and> progress (react StartUnlock s) = 15 \<and>
      stepIndex (elapse 1200 (react StartUnlock s)) = 1 \<and>
      progress (elapse 1200 (react StartUnlock s)) = 30"
proof -
  define s where "s = exec evs mount"
  have i: "page_inv s"
    unfolding s_def by (rule page_inv_reachable)
  have a: "0 \<le> stepIndex s \<and> stepIndex s < int (length STEP_SEQUENCE) \<and>
      progress s = step_progress (nat (stepIndex s))" if "phase s = running"
    using i that by (auto simp: page_inv_def playing_def)
  have b: "phase s = complete" if "progress s = 100"
  proof (rule ccontr)
    assume n: "phase s \<noteq> complete"
    show False
    proof (cases "phase s = running")
      case True
      from a [OF True] that have "15 * (int (nat (stepIndex s)) + 1) = 100"
        by (simp only: step_progress_eq)
      moreover have "15 * (x + 1) \<noteq> (100::int)" for x
        by presburger
      ultimately show False by blast
    next
      case False
      with i n that show False
        by (simp add: page_inv_def resting_def)
    qed
  qed
  note c = during_run_fields(1-3) [OF i]
  note d = after_start(2,3) [OF i] after_1200(2,3) [OF i]
  from a b c d show ?thesis
    unfolding s_def [symmetric] Let_def by blast
qed

theorem progress_during_run_witness:
  "phase (exec [StartUnlock, Elapse 2000] mount) = running \<and>
   stepIndex (exec [StartUnlock, Elapse 2000] mount) = 1 \<and>
   progress (exec [StartUnlock, Elapse 2000] mount) = step_progress 1 \<and>
   step_progress 1 = 30 \<and>
   step_start 3 \<le> 4500 \<and> 4500 < step_start (Suc 3) \<and>
   stepIndex (elapse 4500 (react StartUnlock (exec [StartUnlock, Elapse 2000] mount))) = 3 \<and>
   progress (elapse 4500 (react StartUnlock (exec [StartUnlock, Elapse 2000] mount))) = 60 \<and>
   progress (elapse 1200 (react StartUnlock (exec [StartUnlock, Elapse 2000] mount))) = 30"
proof -
  define s where "s = exec [StartUnlock, Elapse 2000] mount"
  note w = progress_during_run [of "[StartUnlock, Elapse 2000]", unfolded Let_def,
      folded s_def]
  note m = mid_run(1,2) [folded s_def]
  have k: "(3::nat) < length STEP_SEQUENCE \<and> step_start 3 \<le> 4500 \<and> 4500 < step_start (Suc 3)"
    by (simp add: length_STEP_SEQUENCE step_starts)
  from w m have "progress s = step_progress (nat (stepIndex s))"
    by blast
  with m have "progress s = step_progress 1"
    by simp
  moreover from w k have "stepIndex (elapse 4500 (react StartUnlock s)) = 3 \<and>
      progress (elapse 4500 (react StartUnlock s)) = step_progress 3"
    by (metis of_nat_numeral)
  moreover from w have "progress (elapse 1200 (react StartUnlock s)) = 30"
    by blast
  ultimately show ?thesis
    using m k unfolding s_def [symmetric] by (simp add: step_progress_eq)
qed

text \<open>
  C5. Along any sequence of events that holds no start and no reset (so the run token
  stays as it is), from any reachable state, the step index and the progress never
  decrease. In every state reached the progress is at most 90 unless the phase is
  \<open>complete\<close>, and it is 100 only in the phase \<open>complete\<close>.
\<close>

theorem grows_within_run:
  "StartUnlock \<notin> set evs' \<Longrightarrow> ResetUnlock \<notin> set evs' \<Longrightarrow>
   (let s = exec evs mount; s' = exec evs' s
    in runToken s' = runToken s \<and>
       stepIndex s \<le> stepIndex s' \<and> progress s \<le> progress s' \<and>
       (phase s' \<noteq> complete \<longrightarrow> progress s' \<le> 90) \<and>
       (progress s' = 100 \<longrightarrow> phase s' = complete))"
proof -
  assume a: "StartUnlock \<notin> set evs'" "ResetUnlock \<notin> set evs'"
  note i = page_inv_reachable [of evs]
  note i' = page_inv_exec [OF i, of evs']
  from a(1) have "count_list evs' StartUnlock = 0"
    by (simp add: count_list_0_iff)
  then have "runToken (exec evs' (exec evs mount)) = runToken (exec evs mount)"
    by (simp add: runToken_exec)
  with grows_exec [OF i a] progress_bounds [OF i'] show ?thesis
    unfolding Let_def by blast
qed

theorem grows_within_run_witness:
  "StartUnlock \<notin> set [Elapse 1000, NextBeat, Elapse 1000] \<and>
   ResetUnlock \<notin> set [Elapse 1000, NextBeat, Elapse 1000] \<and>
   phase (exec [StartUnlock] mount) = running \<and>
   stepIndex (exec [StartUnlock] mount) = 0 \<and>
   progress (exec [StartUnlock] mount) = 15 \<and>
   runToken (exec [Elapse 1000, NextBeat, Elapse 1000] (exec [StartUnlock] mount)) = 1 \<and>
   0 \<le> stepIndex (exec [Elapse 1000, NextBeat, Elapse 1000] (exec [StartUnlock] mount)) \<and>
   15 \<le> progress (exec [Elapse 1000, NextBeat, Elapse 1000] (exec [StartUnlock] mount))"
proof -
  have n: "StartUnlock \<notin> set [Elapse 1000, NextBeat, Elapse 1000]"
    "ResetUnlock \<notin> set [Elapse 1000, NextBeat, Elapse 1000]"
    by simp_all
  have s: "exec [StartUnlock] mount = react StartUnlock mount"
    by (simp add: exec_Cons exec_Nil)
  note f = after_start(1-3) [OF page_inv_mount, folded s]
  have t: "runToken (exec [StartUnlock] mount) = 1"
    by (simp add: runToken_exec mount_eq initial_def)
  from grows_within_run [OF n, of "[StartUnlock]", unfolded Let_def] f t n
  show ?thesis by simp
qed

text \<open>
  C6, as stated, fails: after a run has completed, the button \<open>Toggle Preview\<close> (never
  disabled) flips the preview to \<open>light\<close> while the phase stays \<open>complete\<close>. Every event
  of the sequence below is one the rendered controls allow.
\<close>

theorem complete_not_always_dark:
  "clicks [StartUnlock, Elapse 6500, TogglePreview] mount \<and>
   phase (exec [StartUnlock, Elapse 6500, TogglePreview] mount) = complete \<and>
   previewMode (exec [StartUnlock, Elapse 6500, TogglePreview] mount) = light"
proof -
  define s where "s = exec [StartUnlock, Elapse 6500] mount"
  have e: "exec [StartUnlock, Elapse 6500, TogglePreview] mount = react TogglePreview s"
    using exec_snoc [of "[StartUnlock, Elapse 6500]" TogglePreview mount]
    by (simp add: s_def)
  have i: "page_inv s"
    unfolding s_def by (rule page_inv_reachable)
  have "clicks [StartUnlock, Elapse 6500, TogglePreview] mount"
    by (simp add: mount_eq initial_def)
  with toggle_fields(1,2) [OF i] completed_run(1,5) [folded s_def] show ?thesis
    unfolding e by simp
qed

text \<open>
  C6, amended. Whenever an event takes a reachable state that is not in the phase
  \<open>complete\<close> into that phase, the preview is \<open>dark\<close> (and the narration at beat 2) in
  the state it leads to. The preview is not tied to the phase afterwards:
  \<open>togglePreview\<close> in the phase \<open>complete\<close> keeps the phase and flips the preview.
\<close>

theorem complete_entered_dark:
  "let s = exec evs mount
   in (phase s \<noteq> complete \<and> phase (react e s) = complete \<longrightarrow>
         previewMode (react e s) = dark \<and> scriptIndex (react e s) = 2) \<and>
      (phase s = complete \<longrightarrow>
         phase (react TogglePreview s) = complete \<and>
         previewMode (react TogglePreview s) =
           (if previewMode s = light then dark else light))"
proof -
  note i = page_inv_reachable [of evs]
  from enters_complete_react [OF i] toggle_fields(1,2) [OF i] show ?thesis
    unfolding Let_def by simp
qed

theorem complete_entered_dark_witness:
  "phase (exec [StartUnlock] mount) = running \<and>
   phase (react (Elapse 6500) (exec [StartUnlock] mount)) = complete \<and>
   previewMode (react (Elapse 6500) (exec [StartUnlock] mount)) = dark \<and>
   scriptIndex (react (Elapse 6500) (exec [StartUnlock] mount)) = 2 \<and>
   phase (exec [StartUnlock, Elapse 6500] mount) = complete \<and>
   previewMode (exec [StartUnlock, Elapse 6500] mount) = dark \<and>
   phase (react TogglePreview (exec [StartUnlock, Elapse 6500] mount)) = complete \<and>
   previewMode (react TogglePreview (exec [StartUnlock, Elapse 6500] mount)) = light"
proof -
  have s: "exec [StartUnlock] mount = react StartUnlock mount"
    by (simp add: exec_Cons exec_Nil)
  have r: "phase (exec [StartUnlock] mount) = running"
    unfolding s using page_inv_mount by (rule after_start)
  have c: "phase (react (Elapse 6500) (exec [StartUnlock] mount)) = complete"
    unfolding s react.simps(6) using page_inv_mount by (rule run_to_completion)
  from complete_entered_dark [of "[StartUnlock]" "Elapse 6500", unfolded Let_def]
    complete_entered_dark [of "[StartUnlock, Elapse 6500]" TogglePreview, unfolded Let_def]
    r c completed_run(1,5)
  show ?thesis by simp
qed

text \<open>
  C7, as stated, fails: a narration button pressed during step 2 moves the beat away
  from 2, and the advances to steps 3 and 4 leave the beat where it is. Below, the run
  is started, \<open>Next Beat\<close> is pressed after 3000 ms (during step 2, beat 2 becomes beat
  0), and 1100 ms later the sequencer advances to step 3: the beat is 0, while 3 clamped
  to the narration range is 2.
\<close>

theorem narration_not_clamped:
  "clicks [StartUnlock, Elapse 3000, NextBeat, Elapse 1100] mount \<and>
   phase (exec [StartUnlock, Elapse 3000, NextBeat, Elapse 1099] mount) = running \<and>
   stepIndex (exec [StartUnlock, Elapse 3000, NextBeat, Elapse 1099] mount) = 2 \<and>
   phase (exec [StartUnlock, Elapse 3000, NextBeat, Elapse 1100] mount) = running \<and>
   stepIndex (exec [StartUnlock, Elapse 3000, NextBeat, Elapse 1100] mount) = 3 \<and>
   scriptIndex (exec [StartUnlock, Elapse 3000, NextBeat, Elapse 1100] mount) = 0 \<and>
   max 0 (min 3 (int (length DEMO_SCRIPT) - 1)) = 2"
proof -
  have e: "exec [StartUnlock, Elapse 3000, NextBeat, Elapse n] mount =
      elapse n (react NextBeat (elapse 3000 (react StartUnlock mount)))" for n
    by (simp add: exec_Cons exec_Nil react.simps(6))
  have "clicks [StartUnlock, Elapse 3000, NextBeat, Elapse 1100] mount"
    by (simp add: mount_eq initial_def)
  with beat_pressed_mid_run show ?thesis
    unfolding e by (simp add: length_DEMO_SCRIPT)
qed

text \<open>
  C7, amended. A new run sets step index and beat to 0. At every later advance of the
  step index, to \<open>i\<close>, in the phase \<open>running\<close>, the beat becomes \<open>i\<close> when \<open>i\<close> is at
  most \<open>M - 1\<close> and stays as it was when \<open>i\<close> is larger. So in a run during which no
  narration button is pressed the beat is \<open>i\<close> clamped to the narration range: beat 2
  during steps 3 and 4 of the catalog of five steps.
\<close>

theorem narration_tracks_step:
  "let s = exec evs mount
   in stepIndex (react StartUnlock s) = 0 \<and> scriptIndex (react StartUnlock s) = 0 \<and>
      (phase (tick s) = running \<and> stepIndex (tick s) \<noteq> stepIndex s \<longrightarrow>
         stepIndex (tick s) = stepIndex s + 1 \<and>
         scriptIndex (tick s) =
           (if stepIndex (tick s) < int (length DEMO_SCRIPT) then stepIndex (tick s)
            else scriptIndex s)) \<and>
      (\<forall>k n. k < length STEP_SEQUENCE \<and> step_start k \<le> n \<and> n < step_start (Suc k) \<longrightarrow>
         stepIndex (elapse n (react StartUnlock s)) = int k \<and>
         scriptIndex (elapse n (react StartUnlock s)) = int (min k (length DEMO_SCRIPT - 1)))"
proof -
  note i = page_inv_reachable [of evs]
  from after_start(2) [OF i] stage_first(3) [OF i] advance_tick [OF i]
    during_run_fields(2,6) [OF i]
  show ?thesis
    unfolding Let_def by blast
qed

theorem narration_tracks_step_witness:
  "stepIndex (exec [StartUnlock, Elapse 1199] mount) = 0 \<and>
   phase (tick (exec [StartUnlock, Elapse 1199] mount)) = running \<and>
   stepIndex (tick (exec [StartUnlock, Elapse 1199] mount)) = 1 \<and>
   scriptIndex (tick (exec [StartUnlock, Elapse 1199] mount)) = 1 \<and>
   step_start 4 \<le> 6000 \<and> 6000 < step_start (Suc 4) \<and>
   stepIndex (elapse 6000 (react StartUnlock (exec [StartUnlock, Elapse 1199] mount))) = 4 \<and>
   scriptIndex (elapse 6000 (react StartUnlock (exec [StartUnlock, Elapse 1199] mount))) = 2"
proof -
  define s where "s = exec [StartUnlock, Elapse 1199] mount"
  have e: "s = elapse 1199 (react StartUnlock mount)"
    by (simp add: s_def exec_Cons exec_Nil react.simps(6))
  have t: "tick s = elapse 1200 (react StartUnlock mount)"
    unfolding e using elapse_Suc_right [of 1199 "react StartUnlock mount"] by simp
  have k0: "0 < length STEP_SEQUENCE" "step_start 0 \<le> 1199" "1199 < step_start (Suc 0)"
    by (simp_all add: length_STEP_SEQUENCE step_starts step_start_0)
  have s0: "stepIndex s = 0"
    unfolding e using during_run_fields(2) [OF page_inv_mount k0] by simp
  have r: "phase (tick s) = running" "stepIndex (tick s) = 1"
    unfolding t using page_inv_mount by (rule after_1200)+
  have k4: "(4::nat) < length STEP_SEQUENCE \<and> step_start 4 \<le> 6000 \<and> 6000 < step_start (Suc 4)"
    by (simp add: length_STEP_SEQUENCE step_starts)
  note w = narration_tracks_step [of "[StartUnlock, Elapse 1199]", unfolded Let_def,
      folded s_def]
  from w r s0 have "scriptIndex (tick s) = 1"
    by (simp add: length_DEMO_SCRIPT)
  moreover from w k4 have "stepIndex (elapse 6000 (react StartUnlock s)) = 4 \<and>
      scriptIndex (elapse 6000 (react StartUnlock s)) = int (min 4 (length DEMO_SCRIPT - 1))"
    by (metis of_nat_numeral)
  ultimately show ?thesis
    using s0 r k4 unfolding s_def [symmetric] by (simp add: length_DEMO_SCRIPT)
qed

text \<open>
  C8. The chain of conditions is the one the claim lists, in that order, and the order
  decides: in every reachable state of the phase \<open>complete\<close> the step index is the last
  step, so the last step meets the test \<open>index === stepIndex\<close> first and is shown
  \<open>active\<close>, not \<open>complete\<close>; the steps before it are shown \<open>complete\<close> by the first
  test. The branch for the phase \<open>complete\<close> is never reached for a step of the
  catalog.
\<close>

theorem last_step_shown_active:
  "let s = exec evs mount
   in phase s = complete \<longrightarrow>
        stepIndex s = int (length STEP_SEQUENCE) - 1 \<and>
        status s (int (length STEP_SEQUENCE) - 1) = timeline_active \<and>
        (\<forall>index. 0 \<le> index \<and> index < int (length STEP_SEQUENCE) - 1 \<longrightarrow>
           status s index = timeline_complete)"
  using completed_status [OF page_inv_reachable [of evs]]
  unfolding Let_def by blast

theorem last_step_shown_active_witness:
  "phase (exec [StartUnlock, Elapse 6500] mount) = complete \<and>
   stepIndex (exec [StartUnlock, Elapse 6500] mount) = 4 \<and>
   status (exec [StartUnlock, Elapse 6500] mount) 4 = timeline_active \<and>
   status (exec [StartUnlock, Elapse 6500] mount) 4 \<noteq> timeline_complete \<and>
   status (exec [StartUnlock, Elapse 6500] mount) 3 = timeline_complete \<and>
   status (exec [StartUnlock, Elapse 6500] mount) 0 = timeline_complete"
proof -
  note w = last_step_shown_active [of "[StartUnlock, Elapse 6500]", unfolded Let_def]
  from w completed_run(1) have
    a: "status (exec [StartUnlock, Elapse 6500] mount) (int (length STEP_SEQUENCE) - 1) =
        timeline_active"
    and b: "\<forall>index. 0 \<le> index \<and> index < int (length STEP_SEQUENCE) - 1 \<longrightarrow>
        status (exec [StartUnlock, Elapse 6500] mount) index = timeline_complete"
    by blast+
  from b have "status (exec [StartUnlock, Elapse 6500] mount) 3 = timeline_complete"
    "status (exec [StartUnlock, Elapse 6500] mount) 0 = timeline_complete"
    by (simp_all add: length_STEP_SEQUENCE)
  with a completed_run(1,2) show ?thesis
    by (simp add: length_STEP_SEQUENCE)
qed

text \<open>
  C9. From any reachable state (whatever its phase, so also when it is not \<open>running\<close>),
  the handler \<open>startUnlock\<close> puts the sequencer at (-1, 0), the phase at \<open>running\<close>,
  the preview at \<open>light\<close>, the narration at beat 0 and adds one to the run token; in the
  renders that follow, a new run of the sequencer starts and sets the step index to 0 and
  the progress to round(1 / (N + 1) * 90) = 15.
\<close>

theorem startUnlock_starts_run:
  "let s = exec evs mount; h = startUnlock s; s' = react StartUnlock s
   in stepIndex h = - 1 \<and> progress h = 0 \<and> phase h = running \<and>
      previewMode h = light \<and> scriptIndex h = 0 \<and> runToken h = runToken s + 1 \<and>
      phase s' = running \<and> previewMode s' = light \<and> scriptIndex s' = 0 \<and>
      runToken s' = runToken s + 1 \<and> stepIndex s' = 0 \<and>
      progress s' = Math_round (1 / of_nat (length STEP_SEQUENCE + 1) * 90) \<and>
      progress s' = 15 \<and>
      trace s' = trace s @ [(length (runs s), SetStepIndex 0),
                            (length (runs s), SetProgress 15)]"
proof -
  note i = page_inv_reachable [of evs]
  note f = stage_first(2-7) [OF i] after_start [OF i]
  have "stepIndex (startUnlock s) = - 1 \<and> progress (startUnlock s) = 0 \<and>
      phase (startUnlock s) = running \<and> previewMode (startUnlock s) = light \<and>
      scriptIndex (startUnlock s) = 0 \<and> runToken (startUnlock s) = runToken s + 1" for s
    by (simp add: startUnlock_def resetSequence_def)
  with f Math_round_first show ?thesis
    by (simp add: Let_def react.simps [symmetric] step_progress_eq)
qed

theorem startUnlock_starts_run_witness:
  "phase (exec [StartUnlock, Elapse 6500] mount) = complete \<and>
   phase (react StartUnlock (exec [StartUnlock, Elapse 6500] mount)) = running \<and>
   previewMode (react StartUnlock (exec [StartUnlock, Elapse 6500] mount)) = light \<and>
   scriptIndex (react StartUnlock (exec [StartUnlock, Elapse 6500] mount)) = 0 \<and>
   runToken (react StartUnlock (exec [StartUnlock, Elapse 6500] mount)) = 2 \<and>
   stepIndex (react StartUnlock (exec [StartUnlock, Elapse 6500] mount)) = 0 \<and>
   progress (react StartUnlock (exec [StartUnlock, Elapse 6500] mount)) = 15"
  using startUnlock_starts_run [of "[StartUnlock, Elapse 6500]"] completed_run
  by (simp add: Let_def)

text \<open>
  C10. \<open>resetUnlock\<close> leaves the run token unchanged; of all events only
  \<open>startUnlock\<close> changes it, and adds exactly one. So, along any sequence of events,
  the token is its first value plus the number of starts: it grows strictly with each start
  and is constant otherwise. (The token is a JavaScript number, modelled here as an
  unbounded integer.)
\<close>

theorem runToken_changes_only_on_start:
  "runToken (resetUnlock s) = runToken s \<and>
   runToken (react e s) = (if e = StartUnlock then runToken s + 1 else runToken s) \<and>
   runToken (exec evs s) = runToken s + int (count_list evs StartUnlock)"
proof (intro conjI)
  show "runToken (resetUnlock s) = runToken s"
    by (simp add: resetUnlock_def resetSequence_def)
  show "runToken (react e s) = (if e = StartUnlock then runToken s + 1 else runToken s)"
    by (rule runToken_react)
  show "runToken (exec evs s) = runToken s + int (count_list evs StartUnlock)"
    by (rule runToken_exec)
qed

theorem runToken_changes_only_on_start_witness:
  "runToken (resetUnlock mount) = 0 \<and>
   runToken (react StartUnlock mount) = 1 \<and>
   runToken (react ResetUnlock mount) = 0 \<and>
   runToken (exec [StartUnlock, Elapse 100, ResetUnlock, TogglePreview, StartUnlock] mount) = 2"
  using runToken_changes_only_on_start [of mount StartUnlock
      "[StartUnlock, Elapse 100, ResetUnlock, TogglePreview, StartUnlock]"]
    runToken_changes_only_on_start [of mount ResetUnlock "[]"]
  by (simp add: mount_eq initial_def)

end
